theory Spec2Isabelle
  imports Complex_Main "HOL-Library.Signed_Division"
begin

section \<open>Data model\<close>

text \<open>
  The engine of the falling-pair puzzle game, embedded from \<^verbatim>\<open>src/app/page.tsx\<close> (the
  variant with a hold slot, a queue of three upcoming pairs and an animated resolver) and from
  \<^verbatim>\<open>src/unnamed/part_000\<close> (the earlier variant: one upcoming pair, no hold, a resolver that
  runs in one go). Functions that are the same text in both files are embedded once; where
  the two differ, the function of \<^verbatim>\<open>part_000\<close> carries the suffix \<open>_v0\<close>, except
  \<open>checkForMatches\<close>, which exists only there.

  A cell is a colour or \<^verbatim>\<open>null\<close>; \<^verbatim>\<open>null\<close> is \<open>None\<close>. \<^verbatim>\<open>part_000\<close> has no \<open>purple\<close>.
\<close>

datatype PuyoColor = red | green | blue | yellow | purple

type_synonym Cell = "PuyoColor option"

datatype GameState = title | active | over | pause

text \<open>
A grid is an array of rows, each row an array of cells; row 0 is the top row.
\<close>

type_synonym Grid = "Cell list list"

definition GRID_ROWS :: nat where
  "GRID_ROWS = 12"

definition GRID_COLS :: nat where
  "GRID_COLS = 6"

definition createEmptyGrid :: Grid where
  "createEmptyGrid = replicate GRID_ROWS (replicate GRID_COLS None)"

text \<open>
  The interface \<^verbatim>\<open>PuyoPair\<close>. Coordinates are JavaScript numbers that only ever hold
  integers; \<open>x - 1\<close> and \<open>y - 1\<close> can be negative, so they are \<open>int\<close>.
\<close>

record PuyoPair =
  color1 :: Cell
  color2 :: Cell
  x :: int
  y :: int
  rotation :: int

text \<open>
  Every grid the program builds comes from \<open>createEmptyGrid\<close> and is only changed cell by
  cell, so it has \<open>GRID_ROWS\<close> rows of \<open>GRID_COLS\<close> cells. Inside its loops over the grid the
  source reads and writes \<^verbatim>\<open>grid[y][x]\<close> with indices that are in range for such a grid; the
  properties below are stated for grids of this shape.
\<close>

definition wf_grid :: "Grid \<Rightarrow> bool" where
  "wf_grid g \<longleftrightarrow> length g = GRID_ROWS \<and> list_all (\<lambda>r. length r = GRID_COLS) g"

text \<open>
  \<^verbatim>\<open>newGrid[y][x] = v\<close>. The source copies the outer array only (\<^verbatim>\<open>[...grid]\<close>) and
  stores into the rows it shares with the old grid; the old grid is not read again, and the
  grid in the new state is the one below.
\<close>

definition setCell :: "Grid \<Rightarrow> nat \<Rightarrow> nat \<Rightarrow> Cell \<Rightarrow> Grid" where
  "setCell g cx cy v = g[cy := (g ! cy)[cx := v]]"

text \<open>
  \<^verbatim>\<open>generatePuyoPair\<close> (page.tsx 73-79, part_000 55-61): the two results of
  \<^verbatim>\<open>randomPuyoColor()\<close> are the parameter; the pair starts at column 2, row 0, rotation 0.
\<close>

definition generatePuyoPair :: "PuyoColor \<times> PuyoColor \<Rightarrow> PuyoPair" where
  "generatePuyoPair rnd = \<lparr>color1 = Some (fst rnd), color2 = Some (snd rnd), x = 2, y = 0, rotation = 0\<rparr>"

section \<open>Gravity\<close>

text \<open>
  \<^verbatim>\<open>applyGravity\<close> (page.tsx 294-309, part_000 257-272). The inner loop
  \<^verbatim>\<open>for (let y = GRID_ROWS - 1; y >= 0; y--)\<close> for the column \<open>cx\<close>: the second argument
  counts the rows still to visit, so the equation for \<open>Suc cy\<close> is the loop body at row \<open>cy\<close>.
  The state is the grid and \<^verbatim>\<open>writeY\<close>, which ends at \<open>-1\<close> when the column is full.
\<close>

fun gravityRows :: "nat \<Rightarrow> nat \<Rightarrow> Grid \<times> int \<Rightarrow> Grid \<times> int" where
  "gravityRows cx 0 (newGrid, writeY) = (newGrid, writeY)"
| "gravityRows cx (Suc cy) (newGrid, writeY) =
     gravityRows cx cy
       (if newGrid ! cy ! cx \<noteq> None then
          let g1 = setCell newGrid cx (nat writeY) (newGrid ! cy ! cx);
              g2 = (if writeY \<noteq> int cy then setCell g1 cx cy None else g1)
          in (g2, writeY - 1)
        else (newGrid, writeY))"

text \<open>
The outer loop, \<^verbatim>\<open>for (let x = 0; x < GRID_COLS; x++)\<close>, with a fresh \<^verbatim>\<open>writeY\<close>.
\<close>

definition gravityColumn :: "Grid \<Rightarrow> nat \<Rightarrow> Grid" where
  "gravityColumn g cx = fst (gravityRows cx GRID_ROWS (g, int GRID_ROWS - 1))"

definition applyGravity :: "Grid \<Rightarrow> Grid" where
  "applyGravity grid = foldl gravityColumn grid [0..<GRID_COLS]"

section \<open>Match detection\<close>

text \<open>
  \<^verbatim>\<open>findConnectedPuyos\<close> (page.tsx 275-292, part_000 238-255). A key is the string
  built from \<^verbatim>\<open>x\<close>, a comma and \<^verbatim>\<open>y\<close>, here the pair itself. A JavaScript \<^verbatim>\<open>Set\<close> keeps its elements in
  insertion order without repetition: it is a list without repetition, \<^verbatim>\<open>has\<close> is
  membership, \<^verbatim>\<open>add\<close> appends an absent element and \<^verbatim>\<open>size\<close> is the length.
\<close>

type_synonym Key = "int \<times> int"

definition setAdd :: "Key list \<Rightarrow> Key \<Rightarrow> Key list" where
  "setAdd s k = (if k \<in> set s then s else s @ [k])"

text \<open>
  The source passes one mutable set through the four recursive calls and ignores their return
  values; here each call returns the set and the next call takes it.
\<close>

function findConnectedPuyos :: "Grid \<Rightarrow> int \<Rightarrow> int \<Rightarrow> Cell \<Rightarrow> Key list \<Rightarrow> Key list" where
  "findConnectedPuyos grid px py color visited =
     (if px < 0 \<or> px \<ge> int GRID_COLS \<or> py < 0 \<or> py \<ge> int GRID_ROWS \<or>
         grid ! nat py ! nat px \<noteq> color \<or> (px, py) \<in> set visited
      then visited
      else
        let visited = setAdd visited (px, py);
            visited = findConnectedPuyos grid (px + 1) py color visited;
            visited = findConnectedPuyos grid (px - 1) py color visited;
            visited = findConnectedPuyos grid px (py + 1) color visited;
            visited = findConnectedPuyos grid px (py - 1) color visited
        in visited)"
  by pat_completeness auto

text \<open>
  Termination: every call that recurses adds a cell of the board that was not visited, and a
  call never removes a visited cell.
\<close>

definition board :: "Key set" where
  "board = {0..<int GRID_COLS} \<times> {0..<int GRID_ROWS}"

lemma finite_board: "finite board"
  by (simp add: board_def)

lemma findConnectedPuyos_mono_dom:
  "findConnectedPuyos_dom (grid, px, py, color, visited) \<Longrightarrow>
   set visited \<subseteq> set (findConnectedPuyos grid px py color visited)"
proof (induction rule: findConnectedPuyos.pinduct)
  case (1 grid px py color visited)
  show ?case
  proof (cases "px < 0 \<or> px \<ge> int GRID_COLS \<or> py < 0 \<or> py \<ge> int GRID_ROWS \<or>
         grid ! nat py ! nat px \<noteq> color \<or> (px, py) \<in> set visited")
    case True
    then show ?thesis using "1.hyps" by (simp add: findConnectedPuyos.psimps)
  next
    case False
    let ?v0 = "setAdd visited (px, py)"
    let ?v1 = "findConnectedPuyos grid (px + 1) py color ?v0"
    let ?v2 = "findConnectedPuyos grid (px - 1) py color ?v1"
    let ?v3 = "findConnectedPuyos grid px (py + 1) color ?v2"
    let ?v4 = "findConnectedPuyos grid px (py - 1) color ?v3"
    have "set visited \<subseteq> set ?v0" by (auto simp: setAdd_def)
    also have "set ?v0 \<subseteq> set ?v1" using "1.IH"(1)[OF False refl] .
    also have "set ?v1 \<subseteq> set ?v2" using "1.IH"(2)[OF False refl refl] .
    also have "set ?v2 \<subseteq> set ?v3" using "1.IH"(3)[OF False refl refl refl] .
    also have "set ?v3 \<subseteq> set ?v4" using "1.IH"(4)[OF False refl refl refl refl] .
    finally show ?thesis using False "1.hyps" by (simp add: findConnectedPuyos.psimps Let_def)
  qed
qed

termination findConnectedPuyos
proof (relation "measure (\<lambda>(grid, px, py, color, visited). card (board - set visited))")
  show "wf (measure (\<lambda>(grid, px, py, color, visited). card (board - set visited)))" by simp
next
  fix grid :: Grid and px py :: int and color :: Cell and visited xa :: "Key list"
  assume c: "\<not> (px < 0 \<or> int GRID_COLS \<le> px \<or> py < 0 \<or> int GRID_ROWS \<le> py \<or>
           grid ! nat py ! nat px \<noteq> color \<or> (px, py) \<in> set visited)"
    and xa: "xa = setAdd visited (px, py)"
  have mem: "(px, py) \<in> board - set visited" using c by (auto simp: board_def)
  have "board - set xa = (board - set visited) - {(px, py)}"
    using c xa by (auto simp: setAdd_def)
  moreover have "card ((board - set visited) - {(px, py)}) < card (board - set visited)"
    using finite_board mem by (intro card_Diff1_less) auto
  ultimately have less: "card (board - set xa) < card (board - set visited)"
    by simp
  show "((grid, px + 1, py, color, xa), (grid, px, py, color, visited))
       \<in> measure (\<lambda>(grid, px, py, color, visited). card (board - set visited))"
    using less by simp
  fix xb assume xb: "xb = findConnectedPuyos grid (px + 1) py color xa"
    and d1: "findConnectedPuyos_dom (grid, px + 1, py, color, xa)"
  have s1: "set xa \<subseteq> set xb" using findConnectedPuyos_mono_dom[OF d1] xb by simp
  have le1: "card (board - set xb) \<le> card (board - set xa)"
    using s1 finite_board by (intro card_mono) auto
  show "((grid, px - 1, py, color, xb), (grid, px, py, color, visited))
       \<in> measure (\<lambda>(grid, px, py, color, visited). card (board - set visited))"
    using less le1 by simp
  fix xc assume xc: "xc = findConnectedPuyos grid (px - 1) py color xb"
    and d2: "findConnectedPuyos_dom (grid, px - 1, py, color, xb)"
  have s2: "set xb \<subseteq> set xc" using findConnectedPuyos_mono_dom[OF d2] xc by simp
  have le2: "card (board - set xc) \<le> card (board - set xb)"
    using s2 finite_board by (intro card_mono) auto
  show "((grid, px, py + 1, color, xc), (grid, px, py, color, visited))
       \<in> measure (\<lambda>(grid, px, py, color, visited). card (board - set visited))"
    using less le1 le2 by simp
  fix xd assume xd: "xd = findConnectedPuyos grid px (py + 1) color xc"
    and d3: "findConnectedPuyos_dom (grid, px, py + 1, color, xc)"
  have s3: "set xc \<subseteq> set xd" using findConnectedPuyos_mono_dom[OF d3] xd by simp
  have le3: "card (board - set xd) \<le> card (board - set xc)"
    using s3 finite_board by (intro card_mono) auto
  show "((grid, px, py - 1, color, xd), (grid, px, py, color, visited))
       \<in> measure (\<lambda>(grid, px, py, color, visited). card (board - set visited))"
    using less le1 le2 le3 by simp
qed

declare findConnectedPuyos.simps [simp del]

text \<open>
  The scan of \<^verbatim>\<open>checkAndUpdateChain\<close> (page.tsx 210-224, part_000 179-193): the cells in
  the order of the two loops, \<^verbatim>\<open>y\<close> outside and \<^verbatim>\<open>x\<close> inside, and the loop body on the
  pair \<^verbatim>\<open>(hasMatches, matchedPuyos)\<close>.
\<close>

definition allCells :: "(nat \<times> nat) list" where
  "allCells = concat (map (\<lambda>cy. map (\<lambda>cx. (cx, cy)) [0..<GRID_COLS]) [0..<GRID_ROWS])"

definition scanCell :: "Grid \<Rightarrow> bool \<times> Key list \<Rightarrow> nat \<times> nat \<Rightarrow> bool \<times> Key list" where
  "scanCell newGrid st c =
     (case st of (hasMatches, matchedPuyos) \<Rightarrow>
      case c of (cx, cy) \<Rightarrow>
        if newGrid ! cy ! cx \<noteq> None then
          let matches = findConnectedPuyos newGrid (int cx) (int cy) (newGrid ! cy ! cx) []
          in if length matches \<ge> 4 then (True, foldl setAdd matchedPuyos matches)
             else (hasMatches, matchedPuyos)
        else (hasMatches, matchedPuyos))"

definition findMatches :: "Grid \<Rightarrow> bool \<times> Key list" where
  "findMatches newGrid = foldl (scanCell newGrid) (False, []) allCells"

text \<open>
\<^verbatim>\<open>matchedPuyos.forEach\<close>: every matched cell is set to \<^verbatim>\<open>null\<close>.
\<close>

definition clearMatched :: "Grid \<Rightarrow> Key list \<Rightarrow> Grid" where
  "clearMatched g matchedPuyos =
     foldl (\<lambda>newGrid k. case k of (kx, ky) \<Rightarrow> setCell newGrid (nat kx) (nat ky) None) g matchedPuyos"

section \<open>The session and the chain loop\<close>

text \<open>
  The state variables of the component (\<^verbatim>\<open>useState\<close>): one record holds those of both
  variants. \<open>nextPuyos\<close>, \<open>heldPuyo\<close>, \<open>canHold\<close> and \<open>isAnimating\<close> belong to
  \<^verbatim>\<open>page.tsx\<close>, \<open>nextPuyo\<close> to \<^verbatim>\<open>part_000\<close>; each variant's functions touch only its own.
  The stored high score, the audio context and the options dialogue (volume, key bindings) are
  presentation and storage and are left out. \<open>fallSpeed\<close> is a floating-point number of
  milliseconds in the source; here it is a rational, and no property below reads its value.
\<close>

record session =
  grid :: Grid
  gameState :: GameState
  score :: int
  currentPuyo :: "PuyoPair option"
  nextPuyos :: "PuyoPair list"
  nextPuyo :: "PuyoPair option"
  chainCounter :: nat
  isPaused :: bool
  fallSpeed :: rat
  heldPuyo :: "PuyoPair option"
  canHold :: bool
  isAnimating :: bool

definition initialSession :: session where
  "initialSession =
     \<lparr>grid = createEmptyGrid, gameState = title, score = 0, currentPuyo = None, nextPuyos = [],
      nextPuyo = None, chainCounter = 0, isPaused = False, fallSpeed = 1000, heldPuyo = None,
      canHold = True, isAnimating = False\<rparr>"

text \<open>
  The local variables of the resolver that \<^verbatim>\<open>checkAndUpdateChain\<close> closes over.
\<close>

record chainLocals =
  newGrid :: Grid
  chainCount :: nat
  hasMatches :: bool

text \<open>
  The score of one step (page.tsx 239-242, part_000 204-207): \<^verbatim>\<open>Math.pow(2, chainCount - 1)\<close>
  is taken after \<^verbatim>\<open>chainCount++\<close>, so its exponent is never negative.
\<close>

definition chainPoints :: "nat \<Rightarrow> nat \<Rightarrow> int" where
  "chainPoints puyosCleared chainCount' =
     (let chainMultiplier = 2 ^ (chainCount' - 1);
          groupSizeBonus = max 0 (int puyosCleared - 4) * 5
      in int puyosCleared * 10 * chainMultiplier + groupSizeBonus)"

text \<open>
  \<^verbatim>\<open>checkAndUpdateChain\<close> (page.tsx 209-254, part_000 178-217): scan; on a match count the
  step, clear, add the points (\<^verbatim>\<open>setScore\<close>), publish the chain count
  (\<^verbatim>\<open>setChainCounter\<close>) and apply gravity. In \<^verbatim>\<open>page.tsx\<close> the function also shows the
  intermediate grids (\<^verbatim>\<open>setGrid\<close>) and waits 250 ms twice; the grid of the session is set
  again after the loop. The function below is the step without the waits; the session the
  component holds during the first wait is \<open>firstWaitFrame\<close> further down.
\<close>

definition checkAndUpdateChain :: "chainLocals \<times> session \<Rightarrow> chainLocals \<times> session" where
  "checkAndUpdateChain st =
     (case st of (l, s) \<Rightarrow>
      case findMatches (newGrid l) of (found, matchedPuyos) \<Rightarrow>
        if found then
          let chainCount' = chainCount l + 1;
              cleared = clearMatched (newGrid l) matchedPuyos;
              points = chainPoints (length matchedPuyos) chainCount'
          in (\<lparr>newGrid = applyGravity cleared, chainCount = chainCount', hasMatches = True\<rparr>,
              s\<lparr>score := score s + points, chainCounter := chainCount'\<rparr>)
        else (l\<lparr>hasMatches := False\<rparr>, s))"

text \<open>
  \<^verbatim>\<open>do { checkAndUpdateChain() } while (hasMatches)\<close>. Not returning is the value \<open>None\<close>.
\<close>

partial_function (option) chainLoop :: "chainLocals \<times> session \<Rightarrow> (chainLocals \<times> session) option" where
  "chainLoop st =
     (let st' = checkAndUpdateChain st
      in if hasMatches (fst st') then chainLoop st' else Some st')"

declare chainLoop.simps [code]

text \<open>
  The errors of a command. \<open>OutOfBounds\<close>: \<^verbatim>\<open>placePuyo\<close> stores outside the grid (the
  source raises \<^verbatim>\<open>TypeError\<close> when the row index is outside the grid, and stores outside the
  six cells of the row when only the column index is). \<open>NoReturn\<close>: the chain loop does not
  return.
\<close>

datatype error = OutOfBounds | NoReturn

text \<open>
The game-over check after the loop (page.tsx 268-270, part_000 233-235).
\<close>

definition gameOverCheck :: "Grid \<Rightarrow> session \<Rightarrow> session" where
  "gameOverCheck g s = (if list_ex (\<lambda>cell. cell \<noteq> None) (g ! 1) then s\<lparr>gameState := over\<rparr> else s)"

text \<open>
  \<^verbatim>\<open>applyGravityAndCheck\<close> (page.tsx 203-273): gravity, then the loop. The timer that
  resets the chain counter five seconds later is the command \<open>ChainReset\<close> below.
\<close>

definition applyGravityAndCheck :: "Grid \<Rightarrow> session \<Rightarrow> error + session" where
  "applyGravityAndCheck g s =
     (case chainLoop (\<lparr>newGrid = applyGravity g, chainCount = 0, hasMatches = False\<rparr>,
                      s\<lparr>isAnimating := True\<rparr>) of
        None \<Rightarrow> Inl NoReturn
      | Some (l, s') \<Rightarrow>
          Inr ((gameOverCheck (newGrid l) (s'\<lparr>grid := newGrid l\<rparr>))\<lparr>isAnimating := False\<rparr>))"

text \<open>
  \<^verbatim>\<open>checkForMatches\<close> (part_000 173-236): the loop starts on the grid as it was locked;
  then the upcoming pair becomes the current one.
\<close>

definition checkForMatches :: "PuyoColor \<times> PuyoColor \<Rightarrow> Grid \<Rightarrow> session \<Rightarrow> error + session" where
  "checkForMatches rnd g s =
     (case chainLoop (\<lparr>newGrid = g, chainCount = 0, hasMatches = False\<rparr>, s) of
        None \<Rightarrow> Inl NoReturn
      | Some (l, s') \<Rightarrow>
          Inr (gameOverCheck (newGrid l)
                 (s'\<lparr>grid := newGrid l, currentPuyo := nextPuyo s,
                     nextPuyo := Some (generatePuyoPair rnd)\<rparr>)))"

section \<open>Pieces and commands\<close>

text \<open>
\<^verbatim>\<open>getSecondPuyoPosition\<close> and \<^verbatim>\<open>isValidMove\<close> (page.tsx 162-181, part_000 137-156).
\<close>

definition getSecondPuyoPosition :: "int \<Rightarrow> int \<Rightarrow> int \<Rightarrow> int \<times> int" where
  "getSecondPuyoPosition px py r =
     (if r = 0 then (px, py - 1)
      else if r = 1 then (px + 1, py)
      else if r = 2 then (px, py + 1)
      else if r = 3 then (px - 1, py)
      else (px, py))"

definition isValidMove :: "Grid \<Rightarrow> PuyoPair \<Rightarrow> bool" where
  "isValidMove g puyo =
     (case getSecondPuyoPosition (x puyo) (y puyo) (rotation puyo) of (x2, y2) \<Rightarrow>
        x puyo \<ge> 0 \<and> x puyo < int GRID_COLS \<and> y puyo \<ge> 0 \<and> y puyo < int GRID_ROWS \<and>
        x2 \<ge> 0 \<and> x2 < int GRID_COLS \<and> y2 \<ge> 0 \<and> y2 < int GRID_ROWS \<and>
        g ! nat (y puyo) ! nat (x puyo) = None \<and> g ! nat y2 ! nat x2 = None)"

text \<open>
  \<^verbatim>\<open>placePuyo\<close> (page.tsx 183-201, part_000 158-171). \<open>writesInGrid\<close> says that both
  stores go to cells of the grid, and \<open>lockedGrid\<close> is the grid after the two stores.
\<close>

definition inGrid :: "int \<Rightarrow> int \<Rightarrow> bool" where
  "inGrid px py \<longleftrightarrow> 0 \<le> px \<and> px < int GRID_COLS \<and> 0 \<le> py \<and> py < int GRID_ROWS"

definition writesInGrid :: "PuyoPair \<Rightarrow> bool" where
  "writesInGrid puyo =
     (case getSecondPuyoPosition (x puyo) (y puyo) (rotation puyo) of (x2, y2) \<Rightarrow>
        inGrid (x puyo) (y puyo) \<and> inGrid x2 y2)"

definition lockedGrid :: "Grid \<Rightarrow> PuyoPair \<Rightarrow> Grid" where
  "lockedGrid g puyo =
     (case getSecondPuyoPosition (x puyo) (y puyo) (rotation puyo) of (x2, y2) \<Rightarrow>
        setCell (setCell g (nat (x puyo)) (nat (y puyo)) (color1 puyo)) (nat x2) (nat y2) (color2 puyo))"

definition placePuyo :: "PuyoColor \<times> PuyoColor \<Rightarrow> session \<Rightarrow> error + session" where
  "placePuyo rnd s =
     (case currentPuyo s of
        None \<Rightarrow> Inr s
      | Some puyo \<Rightarrow>
          if \<not> writesInGrid puyo then Inl OutOfBounds
          else
            let g' = lockedGrid (grid s) puyo
            in applyGravityAndCheck g'
                 (s\<lparr>grid := g',
                    currentPuyo := (case nextPuyos s of [] \<Rightarrow> None | p # _ \<Rightarrow> Some p),
                    nextPuyos := drop 1 (nextPuyos s) @ [generatePuyoPair rnd],
                    canHold := True\<rparr>))"

definition placePuyo_v0 :: "PuyoColor \<times> PuyoColor \<Rightarrow> session \<Rightarrow> error + session" where
  "placePuyo_v0 rnd s =
     (case currentPuyo s of
        None \<Rightarrow> Inr s
      | Some puyo \<Rightarrow>
          if \<not> writesInGrid puyo then Inl OutOfBounds
          else
            let g' = lockedGrid (grid s) puyo
            in checkForMatches rnd g' (s\<lparr>grid := g', currentPuyo := None\<rparr>))"

text \<open>
  When the first scan after a lock finds a match, \<^verbatim>\<open>applyGravityAndCheck\<close> of \<^verbatim>\<open>page.tsx\<close>
  clears the matched cells, shows the grid (\<^verbatim>\<open>setGrid\<close>, line 235) and waits 250 ms
  (line 236) before it adds the points and applies gravity again. \<open>firstWaitFrame\<close> is the
  session the component holds during that wait: the state variables \<^verbatim>\<open>placePuyo\<close> has set,
  the animation flag, and the grid with the matched cells cleared. It is \<open>None\<close> when there
  is no current pair, when the lock would store outside the grid, and when nothing matches
  (then the resolver does not wait).
\<close>

definition firstWaitFrame :: "PuyoColor \<times> PuyoColor \<Rightarrow> session \<Rightarrow> session option" where
  "firstWaitFrame rnd s =
     (case currentPuyo s of
        None \<Rightarrow> None
      | Some puyo \<Rightarrow>
          if \<not> writesInGrid puyo then None
          else
            let settledGrid = applyGravity (lockedGrid (grid s) puyo)
            in case findMatches settledGrid of (found, matchedPuyos) \<Rightarrow>
                 if found then
                   Some (s\<lparr>grid := clearMatched settledGrid matchedPuyos,
                           currentPuyo := (case nextPuyos s of [] \<Rightarrow> None | p # _ \<Rightarrow> Some p),
                           nextPuyos := drop 1 (nextPuyos s) @ [generatePuyoPair rnd],
                           canHold := True, isAnimating := True\<rparr>)
                 else None)"

text \<open>
  \<^verbatim>\<open>movePuyo\<close> (page.tsx 136-149, part_000 111-124); \<open>movedPuyo\<close> is its \<^verbatim>\<open>newPuyo\<close>.
  The fall timer and the key handler both call it.
\<close>

datatype Direction = left | right | down

definition movedPuyo :: "Direction \<Rightarrow> PuyoPair \<Rightarrow> PuyoPair" where
  "movedPuyo direction puyo =
     (case direction of
        left \<Rightarrow> puyo\<lparr>x := x puyo - 1\<rparr>
      | right \<Rightarrow> puyo\<lparr>x := x puyo + 1\<rparr>
      | down \<Rightarrow> puyo\<lparr>y := y puyo + 1\<rparr>)"

definition movePuyo :: "Direction \<Rightarrow> PuyoColor \<times> PuyoColor \<Rightarrow> session \<Rightarrow> error + session" where
  "movePuyo direction rnd s =
     (case currentPuyo s of
        None \<Rightarrow> Inr s
      | Some puyo \<Rightarrow>
          if gameState s \<noteq> active \<or> isPaused s then Inr s
          else
            let newPuyo = movedPuyo direction puyo
            in if isValidMove (grid s) newPuyo then Inr (s\<lparr>currentPuyo := Some newPuyo\<rparr>)
               else if direction = down then placePuyo rnd s
               else Inr s)"

definition movePuyo_v0 :: "Direction \<Rightarrow> PuyoColor \<times> PuyoColor \<Rightarrow> session \<Rightarrow> error + session" where
  "movePuyo_v0 direction rnd s =
     (case currentPuyo s of
        None \<Rightarrow> Inr s
      | Some puyo \<Rightarrow>
          if gameState s \<noteq> active \<or> isPaused s then Inr s
          else
            let newPuyo = movedPuyo direction puyo
            in if isValidMove (grid s) newPuyo then Inr (s\<lparr>currentPuyo := Some newPuyo\<rparr>)
               else if direction = down then placePuyo_v0 rnd s
               else Inr s)"

text \<open>
  \<^verbatim>\<open>rotatePuyo\<close> (page.tsx 151-160, part_000 126-135); \<^verbatim>\<open>%\<close> is the remainder with
  the sign of the dividend, \<open>smod\<close>.
\<close>

definition rotatePuyo :: "Direction \<Rightarrow> session \<Rightarrow> session" where
  "rotatePuyo direction s =
     (case currentPuyo s of
        None \<Rightarrow> s
      | Some puyo \<Rightarrow>
          if gameState s \<noteq> active \<or> isPaused s then s
          else
            let newPuyo = puyo\<lparr>rotation :=
                  (rotation puyo + (if direction = left then -1 else 1) + 4) smod 4\<rparr>
            in if isValidMove (grid s) newPuyo then s\<lparr>currentPuyo := Some newPuyo\<rparr> else s)"

text \<open>
\<^verbatim>\<open>holdPuyo\<close> (page.tsx 312-325).
\<close>

definition holdPuyo :: "PuyoColor \<times> PuyoColor \<Rightarrow> session \<Rightarrow> session" where
  "holdPuyo rnd s =
     (case currentPuyo s of
        None \<Rightarrow> s
      | Some puyo \<Rightarrow>
          if \<not> canHold s \<or> gameState s \<noteq> active \<or> isPaused s then s
          else
            (case heldPuyo s of
               Some held \<Rightarrow>
                 s\<lparr>currentPuyo := Some (held\<lparr>x := 2, y := 0, rotation := 0\<rparr>),
                   heldPuyo := Some puyo, canHold := False\<rparr>
             | None \<Rightarrow>
                 s\<lparr>heldPuyo := Some puyo,
                   currentPuyo := (case nextPuyos s of [] \<Rightarrow> None | p # _ \<Rightarrow> Some p),
                   nextPuyos := drop 1 (nextPuyos s) @ [generatePuyoPair rnd],
                   canHold := False\<rparr>))"

text \<open>
\<^verbatim>\<open>togglePause\<close> (page.tsx 132-134, part_000 107-109).
\<close>

definition togglePause :: "session \<Rightarrow> session" where
  "togglePause s = s\<lparr>isPaused := \<not> isPaused s\<rparr>"

text \<open>
\<^verbatim>\<open>startGame\<close> (page.tsx 117-130, part_000 95-105).
\<close>

definition startGame ::
  "PuyoColor \<times> PuyoColor \<Rightarrow> PuyoColor \<times> PuyoColor \<Rightarrow> PuyoColor \<times> PuyoColor \<Rightarrow>
   PuyoColor \<times> PuyoColor \<Rightarrow> session \<Rightarrow> session" where
  "startGame r1 r2 r3 r4 s =
     (let initialNextPuyos = map generatePuyoPair [r1, r2, r3, r4]
      in s\<lparr>grid := createEmptyGrid, score := 0, chainCounter := 0,
           currentPuyo := Some (hd initialNextPuyos), nextPuyos := drop 1 initialNextPuyos,
           gameState := active, isPaused := False, fallSpeed := 1000,
           heldPuyo := None, canHold := True\<rparr>)"

definition startGame_v0 :: "PuyoColor \<times> PuyoColor \<Rightarrow> PuyoColor \<times> PuyoColor \<Rightarrow> session \<Rightarrow> session" where
  "startGame_v0 r1 r2 s =
     s\<lparr>grid := createEmptyGrid, score := 0, chainCounter := 0,
       currentPuyo := Some (generatePuyoPair r1), nextPuyo := Some (generatePuyoPair r2),
       gameState := active, isPaused := False, fallSpeed := 1000\<rparr>"

text \<open>
  The commands that reach the engine: the start button, the pause toggle (button or Escape),
  a move (a key or the fall timer), a rotation, the hold key, the timer that resets the chain
  counter and the timer that shortens the fall interval (page.tsx 395-407). A command that
  generates a pair carries its colours. Commands are taken one at a time.
\<close>

datatype command =
    StartGame "PuyoColor \<times> PuyoColor" "PuyoColor \<times> PuyoColor" "PuyoColor \<times> PuyoColor"
      "PuyoColor \<times> PuyoColor"
  | TogglePause
  | Move Direction "PuyoColor \<times> PuyoColor"
  | Rotate Direction
  | Hold "PuyoColor \<times> PuyoColor"
  | ChainReset
  | SpeedIncrease

definition speedIncrease :: "session \<Rightarrow> session" where
  "speedIncrease s =
     (if gameState s = active \<and> \<not> isPaused s then s\<lparr>fallSpeed := fallSpeed s / (11 / 10)\<rparr> else s)"

fun step :: "command \<Rightarrow> session \<Rightarrow> error + session" where
  "step (StartGame r1 r2 r3 r4) s = Inr (startGame r1 r2 r3 r4 s)"
| "step TogglePause s = Inr (togglePause s)"
| "step (Move direction rnd) s = movePuyo direction rnd s"
| "step (Rotate direction) s = Inr (rotatePuyo direction s)"
| "step (Hold rnd) s = Inr (holdPuyo rnd s)"
| "step ChainReset s = Inr (s\<lparr>chainCounter := 0\<rparr>)"
| "step SpeedIncrease s = Inr (speedIncrease s)"

fun step_v0 :: "command \<Rightarrow> session \<Rightarrow> error + session" where
  "step_v0 (StartGame r1 r2 r3 r4) s = Inr (startGame_v0 r1 r2 s)"
| "step_v0 TogglePause s = Inr (togglePause s)"
| "step_v0 (Move direction rnd) s = movePuyo_v0 direction rnd s"
| "step_v0 (Rotate direction) s = Inr (rotatePuyo direction s)"
| "step_v0 (Hold rnd) s = Inr s"
| "step_v0 ChainReset s = Inr (s\<lparr>chainCounter := 0\<rparr>)"
| "step_v0 SpeedIncrease s = Inr (speedIncrease s)"

fun run :: "(command \<Rightarrow> session \<Rightarrow> error + session) \<Rightarrow> command list \<Rightarrow> session \<Rightarrow> error + session" where
  "run f [] s = Inr s"
| "run f (c # cs) s = (case f c s of Inl e \<Rightarrow> Inl e | Inr s' \<Rightarrow> run f cs s')"

inductive reachable :: "session \<Rightarrow> bool" where
  reachable_init: "reachable initialSession"
| reachable_step: "reachable s \<Longrightarrow> step c s = Inr s' \<Longrightarrow> reachable s'"

inductive reachable_v0 :: "session \<Rightarrow> bool" where
  reachable_v0_init: "reachable_v0 initialSession"
| reachable_v0_step: "reachable_v0 s \<Longrightarrow> step_v0 c s = Inr s' \<Longrightarrow> reachable_v0 s'"

definition sessionAfter :: "command list \<Rightarrow> session" where
  "sessionAfter cs = (case run step cs initialSession of Inl e \<Rightarrow> initialSession | Inr s \<Rightarrow> s)"

definition sessionAfter_v0 :: "command list \<Rightarrow> session" where
  "sessionAfter_v0 cs = (case run step_v0 cs initialSession of Inl e \<Rightarrow> initialSession | Inr s \<Rightarrow> s)"

section \<open>Notions used in the properties\<close>

text \<open>
A column read from top to bottom, and its non-empty cells in that order.
\<close>

definition column :: "Grid \<Rightarrow> nat \<Rightarrow> Cell list" where
  "column g cx = map (\<lambda>r. r ! cx) g"

definition nonEmpty :: "Cell list \<Rightarrow> Cell list" where
  "nonEmpty cs = filter (\<lambda>v. v \<noteq> None) cs"

text \<open>
What gravity does to one column, as a function of the column alone.
\<close>

definition compact :: "Cell list \<Rightarrow> Cell list" where
  "compact cs = replicate (length cs - length (nonEmpty cs)) None @ nonEmpty cs"

text \<open>
The number of occupied cells of a grid.
\<close>

definition occupied :: "Grid \<Rightarrow> nat" where
  "occupied g = length (nonEmpty (concat g))"

text \<open>
A grid is settled when every occupied cell above the bottom row rests on an occupied cell.
\<close>

definition settled :: "Grid \<Rightarrow> bool" where
  "settled g \<longleftrightarrow>
     list_all (\<lambda>cx. list_all (\<lambda>cy. g ! cy ! cx = None \<or> g ! Suc cy ! cx \<noteq> None)
       [0..<GRID_ROWS - 1]) [0..<GRID_COLS]"

definition cellAt :: "Grid \<Rightarrow> Key \<Rightarrow> Cell" where
  "cellAt g k = g ! nat (snd k) ! nat (fst k)"

definition occupiedKeys :: "Grid \<Rightarrow> Key list \<Rightarrow> bool" where
  "occupiedKeys g ks \<longleftrightarrow> distinct ks \<and> (\<forall>k\<in>set ks. k \<in> board \<and> cellAt g k \<noteq> None)"

text \<open>
  The region the scan computes at a cell, and the cells at which the scan finds a region of
  at least four cells.
\<close>

definition regionAt :: "Grid \<Rightarrow> nat \<times> nat \<Rightarrow> Key list" where
  "regionAt g c = (case c of (cx, cy) \<Rightarrow> findConnectedPuyos g (int cx) (int cy) (g ! cy ! cx) [])"

definition clearingCells :: "Grid \<Rightarrow> (nat \<times> nat) list" where
  "clearingCells g =
     filter (\<lambda>c. (case c of (cx, cy) \<Rightarrow> g ! cy ! cx \<noteq> None) \<and> 4 \<le> length (regionAt g c)) allCells"

text \<open>
  The grids a resolver goes through from the grid \<open>g\<close>, one per scan: the first is \<open>g\<close>; a grid
  in which the scan finds a match is followed by that grid with the matched cells cleared and
  gravity applied; the last is the first in which the scan finds none. The step from the grid
  at index \<open>k\<close> to the next is the clear number \<open>k + 1\<close> of the sequence.
\<close>

fun clearingRun :: "Grid \<Rightarrow> Grid list \<Rightarrow> bool" where
  "clearingRun g [] = False"
| "clearingRun g [g'] = (g' = g \<and> \<not> fst (findMatches g))"
| "clearingRun g (g' # g'' # gs) =
     (g' = g \<and> fst (findMatches g) \<and>
      clearingRun (applyGravity (clearMatched g (snd (findMatches g)))) (g'' # gs))"

text \<open>
The pose of a generated pair, a row without an occupied cell, a pair with two colours.
\<close>

definition atSpawn :: "PuyoPair \<Rightarrow> bool" where
  "atSpawn puyo \<longleftrightarrow> x puyo = 2 \<and> y puyo = 0 \<and> rotation puyo = 0"

definition rowEmpty :: "Grid \<Rightarrow> nat \<Rightarrow> bool" where
  "rowEmpty g cy \<longleftrightarrow> \<not> list_ex (\<lambda>cell. cell \<noteq> None) (g ! cy)"

definition coloured :: "PuyoPair \<Rightarrow> bool" where
  "coloured puyo \<longleftrightarrow> color1 puyo \<noteq> None \<and> color2 puyo \<noteq> None"

text \<open>
  The invariant of the session: the grid has its shape, no resolver is running, upcoming
  pairs are as generated, and while the game is active the two top rows are empty and the
  current pair is either where it was generated or on two empty cells of the grid.
\<close>

definition sessionInv :: "session \<Rightarrow> bool" where
  "sessionInv s \<longleftrightarrow>
     wf_grid (grid s) \<and> \<not> isAnimating s \<and>
     list_all (\<lambda>p. atSpawn p \<and> coloured p) (nextPuyos s) \<and>
     (case nextPuyo s of None \<Rightarrow> True | Some p \<Rightarrow> atSpawn p \<and> coloured p) \<and>
     (case heldPuyo s of None \<Rightarrow> True | Some p \<Rightarrow> coloured p) \<and>
     (case currentPuyo s of None \<Rightarrow> True | Some p \<Rightarrow> coloured p) \<and>
     (gameState s = active \<longrightarrow>
        rowEmpty (grid s) 0 \<and> rowEmpty (grid s) 1 \<and>
        (case currentPuyo s of None \<Rightarrow> True | Some p \<Rightarrow> atSpawn p \<or> isValidMove (grid s) p))"

text \<open>
  The offsets of the second cell in the words of the specification:
  0 up, 1 right, 2 down, 3 left, as (column, row) deltas.
\<close>

definition secondCellOffset :: "int \<Rightarrow> (int \<times> int) option" where
  "secondCellOffset orientation =
     (if orientation = 0 then Some (0, -1)
      else if orientation = 1 then Some (1, 0)
      else if orientation = 2 then Some (0, 1)
      else if orientation = 3 then Some (-1, 0)
      else None)"

section \<open>Example inputs\<close>

text \<open>
  \<open>floatingGrid\<close>: in column 2, \<open>red\<close> at row 3 and \<open>blue\<close> at row 5 above an empty rest; in
  column 4, \<open>green\<close> at row 11 under \<open>yellow\<close> at row 0. \<open>fiveGrid\<close>: five \<open>red\<close> cells side by
  side in the bottom row. \<open>towerGrid\<close>: column 2 filled from row 1 down, colours alternating.
\<close>

definition floatingGrid :: Grid where
  "floatingGrid =
     setCell (setCell (setCell (setCell createEmptyGrid 2 3 (Some red)) 2 5 (Some blue))
       4 11 (Some green)) 4 0 (Some yellow)"

definition fiveGrid :: Grid where
  "fiveGrid = foldl (\<lambda>g cx. setCell g cx 11 (Some red)) createEmptyGrid [0, 1, 2, 3, 4]"

definition fiveLocals :: chainLocals where
  "fiveLocals = \<lparr>newGrid = fiveGrid, chainCount = 0, hasMatches = False\<rparr>"


text \<open>
  \<open>chainGrid\<close>: column 0 holds, from row 4 down, three \<open>blue\<close>, four \<open>red\<close> and one \<open>blue\<close>; clearing
  the \<open>red\<close> cells lets the three \<open>blue\<close> fall onto the fourth, which is \<open>fourBlueGrid\<close>, and
  the second clear empties the grid.
\<close>

definition chainGrid :: Grid where
  "chainGrid =
     foldl (\<lambda>g cy. setCell g 0 cy (Some (if cy \<in> {7, 8, 9, 10} then red else blue))) createEmptyGrid
       [4, 5, 6, 7, 8, 9, 10, 11]"

definition fourBlueGrid :: Grid where
  "fourBlueGrid = foldl (\<lambda>g cy. setCell g 0 cy (Some blue)) createEmptyGrid [8, 9, 10, 11]"

text \<open>
  Sessions reached by commands: just started; after three moves down; after eleven moves
  down, with the pair on the floor. \<open>floatingCommands\<close> drops the first pair in column 2, turns
  the second to the right and drops it onto the first, so that its second cell ends over an
  empty column.
\<close>

definition startCommand :: command where
  "startCommand = StartGame (red, blue) (green, yellow) (red, red) (blue, blue)"

definition activeSession :: session where
  "activeSession = startGame (red, blue) (green, yellow) (red, red) (blue, blue) initialSession"

definition spawnSession :: session where
  "spawnSession = sessionAfter [startCommand]"

definition fallenSession :: session where
  "fallenSession = sessionAfter (startCommand # replicate 3 (Move down (red, red)))"

definition bottomSession :: session where
  "bottomSession = sessionAfter (startCommand # replicate 11 (Move down (red, red)))"

definition bottomSession_v0 :: session where
  "bottomSession_v0 = sessionAfter_v0 (startCommand # replicate 11 (Move down (red, red)))"

definition floatingCommands :: "command list" where
  "floatingCommands =
     startCommand # replicate 12 (Move down (red, red)) @ [Rotate right]
       @ replicate 10 (Move down (blue, blue))"

text \<open>
  \<open>raceCommands\<close> drops five pairs straight down in column 2, which leaves \<open>red\<close> at rows 2
  to 4, and moves the sixth pair, \<open>red\<close> under \<open>blue\<close>, down once, to rows 1 and 0.
\<close>

definition raceCommands :: "command list" where
  "raceCommands =
     StartGame (green, blue) (green, blue) (green, blue) (green, red)
       # replicate 12 (Move down (red, red)) @ replicate 10 (Move down (red, blue))
       @ replicate 8 (Move down (green, yellow)) @ replicate 6 (Move down (green, yellow))
       @ replicate 4 (Move down (green, yellow)) @ [Move down (green, yellow)]"

section \<open>Gravity: proofs\<close>

subsection \<open>Cells, columns and the occupied count under a single store\<close>

lemma wf_grid_nth: "wf_grid g \<Longrightarrow> cy < GRID_ROWS \<Longrightarrow> length (g ! cy) = GRID_COLS"
  by (simp add: wf_grid_def list_all_length)

lemma nth_setCell:
  "setCell g cx cy v ! i = (if i = cy \<and> cy < length g then (g ! cy)[cx := v] else g ! i)"
  by (cases "cy < length g") (auto simp: setCell_def nth_list_update list_update_beyond)

lemma length_setCell: "length (setCell g cx cy v) = length g"
  by (simp add: setCell_def)

lemma wf_grid_setCell: "wf_grid g \<Longrightarrow> wf_grid (setCell g cx cy v)"
  by (auto simp: wf_grid_def list_all_length nth_setCell length_setCell)

lemma length_column: "length (column g cx) = length g"
  by (simp add: column_def)

lemma column_nth: "cy < length g \<Longrightarrow> column g cx ! cy = g ! cy ! cx"
  by (simp add: column_def)

lemma column_setCell_same:
  assumes "wf_grid g" "cx < GRID_COLS"
  shows "column (setCell g cx cy v) cx = (column g cx)[cy := v]"
proof (rule nth_equalityI)
  show "length (column (setCell g cx cy v) cx) = length ((column g cx)[cy := v])"
    by (simp add: length_column length_setCell)
next
  fix i assume "i < length (column (setCell g cx cy v) cx)"
  then have i: "i < length g" by (simp add: length_column length_setCell)
  then have "length (g ! i) = GRID_COLS"
    using assms(1) by (simp add: wf_grid_def list_all_length)
  then show "column (setCell g cx cy v) cx ! i = (column g cx)[cy := v] ! i"
    using i assms(2)
    by (auto simp: column_nth length_setCell nth_setCell nth_list_update length_column)
qed

lemma column_setCell_other:
  assumes "cx' \<noteq> cx"
  shows "column (setCell g cx cy v) cx' = column g cx'"
proof (rule nth_equalityI)
  show "length (column (setCell g cx cy v) cx') = length (column g cx')"
    by (simp add: length_column length_setCell)
next
  fix i assume "i < length (column (setCell g cx cy v) cx')"
  then have i: "i < length g" by (simp add: length_column length_setCell)
  then show "column (setCell g cx cy v) cx' ! i = column g cx' ! i"
    using assms by (simp add: column_nth length_setCell nth_setCell)
qed

lemma nonEmpty_update:
  assumes "cx < length r"
  shows "length (nonEmpty (r[cx := v])) + (if r ! cx \<noteq> None then 1 else 0)
      = length (nonEmpty r) + (if v \<noteq> None then 1 else 0)"
proof -
  have r: "r = take cx r @ (r ! cx) # drop (Suc cx) r"
    using assms by (rule id_take_nth_drop)
  have "length (nonEmpty r) = length (nonEmpty (take cx r))
      + (if r ! cx \<noteq> None then 1 else 0) + length (nonEmpty (drop (Suc cx) r))"
    by (subst r) (simp add: nonEmpty_def)
  moreover have "length (nonEmpty (r[cx := v])) = length (nonEmpty (take cx r))
      + (if v \<noteq> None then 1 else 0) + length (nonEmpty (drop (Suc cx) r))"
    using assms by (simp add: nonEmpty_def upd_conv_take_nth_drop)
  ultimately show ?thesis by simp
qed

lemma occupied_setCell:
  assumes "cy < length g" "cx < length (g ! cy)"
  shows "occupied (setCell g cx cy v) + (if g ! cy ! cx \<noteq> None then 1 else 0)
         = occupied g + (if v \<noteq> None then 1 else 0)"
proof -
  have g: "g = take cy g @ (g ! cy) # drop (Suc cy) g"
    using assms(1) by (rule id_take_nth_drop)
  have "occupied g = length (nonEmpty (concat (take cy g))) + length (nonEmpty (g ! cy))
      + length (nonEmpty (concat (drop (Suc cy) g)))"
    by (subst g) (simp add: occupied_def nonEmpty_def)
  moreover have "occupied (setCell g cx cy v) = length (nonEmpty (concat (take cy g)))
      + length (nonEmpty ((g ! cy)[cx := v])) + length (nonEmpty (concat (drop (Suc cy) g)))"
    using assms(1) by (simp add: occupied_def nonEmpty_def setCell_def upd_conv_take_nth_drop)
  ultimately show ?thesis using nonEmpty_update[OF assms(2), of v] by simp
qed

subsection \<open>The inner loop\<close>

text \<open>
  Invariant of the inner loop before row \<open>cy - 1\<close> is visited, with \<open>writeY = m - 1\<close>: the
  rows from \<open>cy\<close> up to \<open>writeY\<close> of the column are empty. At the end the column is empty cells,
  then the non-empty cells of the rows visited, then the rows below \<open>writeY\<close> untouched.
\<close>

lemma all_None_prefix:
  assumes "m \<le> length c" "\<forall>r<m. c ! r = None"
  shows "c = replicate m None @ drop m c"
proof -
  have "take m c = replicate m None"
    using assms by (intro nth_equalityI) auto
  then show ?thesis
    by (metis append_take_drop_id)
qed

lemma nonEmpty_take_Suc:
  assumes "cy < length c"
  shows "nonEmpty (take (Suc cy) c) = nonEmpty (take cy c) @ (if c ! cy \<noteq> None then [c ! cy] else [])"
  using assms by (simp add: nonEmpty_def take_Suc_conv_app_nth)

lemma length_nonEmpty_le: "length (nonEmpty c) \<le> length c"
  by (simp add: nonEmpty_def)

lemma gravityRows_spec:
  assumes "wf_grid g" "cx < GRID_COLS" "cy \<le> m" "m \<le> GRID_ROWS"
      "\<forall>r. cy \<le> r \<and> r < m \<longrightarrow> column g cx ! r = None"
  shows "wf_grid (fst (gravityRows cx cy (g, int m - 1))) \<and>
         occupied (fst (gravityRows cx cy (g, int m - 1))) = occupied g \<and>
         (\<forall>cx'. cx' \<noteq> cx \<longrightarrow> column (fst (gravityRows cx cy (g, int m - 1))) cx' = column g cx') \<and>
         column (fst (gravityRows cx cy (g, int m - 1))) cx =
           replicate (m - length (nonEmpty (take cy (column g cx)))) None
             @ nonEmpty (take cy (column g cx)) @ drop m (column g cx)"
  using assms
proof (induction cy arbitrary: g m)
  case 0
  have "length (column g cx) = GRID_ROWS"
    using "0.prems"(1) by (simp add: length_column wf_grid_def)
  then have "column g cx = replicate m None @ drop m (column g cx)"
    using "0.prems" by (intro all_None_prefix) auto
  then show ?case
    using "0.prems"(1) by (simp add: nonEmpty_def)
next
  case (Suc cy)
  let ?c = "column g cx"
  have len: "length ?c = GRID_ROWS" and lg: "length g = GRID_ROWS"
    using Suc.prems(1) by (simp_all add: length_column wf_grid_def)
  have cy: "cy < GRID_ROWS" "cy < m" using Suc.prems by auto
  have cell: "g ! cy ! cx = ?c ! cy" using cy lg by (simp add: column_nth)
  show ?case
  proof (cases "?c ! cy = None")
    case True
    have inv: "\<forall>r. cy \<le> r \<and> r < m \<longrightarrow> column g cx ! r = None"
      using Suc.prems(5) True by (metis Suc_leI le_neq_implies_less)
    have "nonEmpty (take (Suc cy) ?c) = nonEmpty (take cy ?c)"
      using True cy len by (simp add: nonEmpty_take_Suc)
    then show ?thesis
      using Suc.IH[OF Suc.prems(1,2) _ Suc.prems(4) inv] cy True cell by simp
  next
    case False
    then obtain v where v: "?c ! cy = Some v" by auto
    define g1 where "g1 = setCell g cx (m - 1) (Some v)"
    define g2 where "g2 = (if m - 1 \<noteq> cy then setCell g1 cx cy None else g1)"
    have step: "gravityRows cx (Suc cy) (g, int m - 1) = gravityRows cx cy (g2, int (m - 1) - 1)"
      using cy v cell by (auto simp: g1_def g2_def Let_def nat_diff_distrib' of_nat_diff)
    have wf1: "wf_grid g1" and wf2: "wf_grid g2"
      using Suc.prems(1) by (simp_all add: g1_def g2_def wf_grid_setCell)
    have c1: "column g1 cx = ?c[m - 1 := Some v]"
      using Suc.prems(1,2) by (simp add: g1_def column_setCell_same)
    have c2: "column g2 cx = (if m - 1 \<noteq> cy then ?c[m - 1 := Some v, cy := None] else ?c[m - 1 := Some v])"
      using wf1 Suc.prems(2) c1 by (simp add: g2_def column_setCell_same)
    have oth: "column g2 cx' = column g cx'" if "cx' \<noteq> cx" for cx'
      using that by (simp add: g1_def g2_def column_setCell_other)
    have m1: "m - 1 < GRID_ROWS" "cy \<le> m - 1" "m - 1 \<le> GRID_ROWS" using cy Suc.prems by auto
    have rowlen: "length (g ! r) = GRID_COLS" if "r < GRID_ROWS" for r
      using Suc.prems(1) that by (rule wf_grid_nth)
    have rowlen1: "length (g1 ! r) = GRID_COLS" if "r < GRID_ROWS" for r
      using wf1 that by (rule wf_grid_nth)
    have top: "g ! (m - 1) ! cx = None" if "m - 1 \<noteq> cy"
      using Suc.prems(5) that cy lg m1 by (simp add: column_nth[symmetric] del: column_nth) 
    have occ1: "occupied g1 + (if m - 1 \<noteq> cy then 0 else 1) = occupied g + 1"
      using occupied_setCell[of "m - 1" g cx "Some v"] m1 lg rowlen[of "m - 1"] Suc.prems(2) top
        cell v by (auto simp: g1_def)
    have g1cy: "g1 ! cy ! cx = Some v" if "m - 1 \<noteq> cy"
      using that cell v by (simp add: g1_def nth_setCell)
    have occ2: "occupied g2 = occupied g"
    proof (cases "m - 1 = cy")
      case True
      then show ?thesis using occ1 by (simp add: g2_def)
    next
      case False
      have "length g1 = GRID_ROWS" using wf1 by (simp add: wf_grid_def)
      then show ?thesis
        using occupied_setCell[of cy g1 cx None] cy rowlen1[of cy] Suc.prems(2) g1cy[OF False] occ1 False
        by (simp add: g2_def)
    qed
    have inv: "\<forall>r. cy \<le> r \<and> r < m - 1 \<longrightarrow> column g2 cx ! r = None"
    proof (intro allI impI)
      fix r assume r: "cy \<le> r \<and> r < m - 1"
      then have "m - 1 \<noteq> cy" by auto
      show "column g2 cx ! r = None"
      proof (cases "r = cy")
        case True
        then show ?thesis using r cy len by (simp add: c2)
      next
        case False
        then have "?c ! r = None" using Suc.prems(5) r by auto
        then show ?thesis using r False by (simp add: c2)
      qed
    qed
    have tk: "take cy (column g2 cx) = take cy ?c"
      using m1 by (simp add: c2)
    have dr: "drop (m - 1) (column g2 cx) = Some v # drop m ?c"
    proof -
      have "drop (m - 1) (column g2 cx) = drop (m - 1) (?c[m - 1 := Some v])"
        using m1 by (auto simp: c2)
      also have "\<dots> = (?c[m - 1 := Some v]) ! (m - 1) # drop (Suc (m - 1)) (?c[m - 1 := Some v])"
        using m1 len by (simp add: Cons_nth_drop_Suc[symmetric])
      also have "\<dots> = Some v # drop m ?c"
        using m1 len cy by simp
      finally show ?thesis .
    qed
    have ne: "nonEmpty (take (Suc cy) ?c) = nonEmpty (take cy ?c) @ [Some v]"
      using cy len v by (simp add: nonEmpty_take_Suc)
    have k: "length (nonEmpty (take cy ?c)) \<le> cy"
      using length_nonEmpty_le[of "take cy ?c"] by simp
    have "m - Suc (length (nonEmpty (take cy ?c))) = m - 1 - length (nonEmpty (take cy ?c))"
      by simp
    then show ?thesis
      unfolding step
      using Suc.IH[OF wf2 Suc.prems(2) m1(2) m1(3) inv] occ2 oth dr
      by (simp add: tk ne)
  qed
qed

subsection \<open>The whole pass\<close>

lemma gravityColumn_spec:
  assumes "wf_grid g" "cx < GRID_COLS"
  shows "wf_grid (gravityColumn g cx)" "occupied (gravityColumn g cx) = occupied g"
        "cx' \<noteq> cx \<Longrightarrow> column (gravityColumn g cx) cx' = column g cx'"
        "column (gravityColumn g cx) cx = compact (column g cx)"
proof -
  have len: "length (column g cx) = GRID_ROWS"
    using assms(1) by (simp add: length_column wf_grid_def)
  have v: "\<forall>r. GRID_ROWS \<le> r \<and> r < GRID_ROWS \<longrightarrow> column g cx ! r = None"
    by auto
  note s = gravityRows_spec[OF assms le_refl le_refl v]
  show "wf_grid (gravityColumn g cx)" "occupied (gravityColumn g cx) = occupied g"
    using s by (simp_all add: gravityColumn_def)
  show "cx' \<noteq> cx \<Longrightarrow> column (gravityColumn g cx) cx' = column g cx'"
    using s by (simp add: gravityColumn_def)
  show "column (gravityColumn g cx) cx = compact (column g cx)"
    using s len by (simp add: gravityColumn_def compact_def)
qed

lemma gravity_prefix:
  assumes "wf_grid g" "n \<le> GRID_COLS"
  shows "wf_grid (foldl gravityColumn g [0..<n]) \<and>
         occupied (foldl gravityColumn g [0..<n]) = occupied g \<and>
         (\<forall>cx. column (foldl gravityColumn g [0..<n]) cx =
                (if cx < n then compact (column g cx) else column g cx))"
  using assms(2)
proof (induction n)
  case 0
  then show ?case using assms(1) by simp
next
  case (Suc n)
  let ?h = "foldl gravityColumn g [0..<n]"
  have ih: "wf_grid ?h" "occupied ?h = occupied g"
     "\<And>cx. column ?h cx = (if cx < n then compact (column g cx) else column g cx)"
    using Suc by simp_all
  have n: "n < GRID_COLS" using Suc.prems by simp
  note s = gravityColumn_spec[OF ih(1) n]
  have "column (gravityColumn ?h n) cx =
      (if cx < Suc n then compact (column g cx) else column g cx)" for cx
  proof (cases "cx = n")
    case True
    then show ?thesis using s(4) ih(3)[of n] by simp
  next
    case False
    then show ?thesis using s(3)[of cx] ih(3)[of cx] by auto
  qed
  then show ?case using s(1,2) ih(2) by simp
qed

lemma applyGravity_spec:
  assumes "wf_grid g"
  shows "wf_grid (applyGravity g)" "occupied (applyGravity g) = occupied g"
        "cx < GRID_COLS \<Longrightarrow> column (applyGravity g) cx = compact (column g cx)"
  using gravity_prefix[OF assms, of GRID_COLS] by (simp_all add: applyGravity_def)

lemma grid_eqI:
  assumes "wf_grid g" "wf_grid h" "\<And>cx. cx < GRID_COLS \<Longrightarrow> column g cx = column h cx"
  shows "g = h"
proof (rule nth_equalityI)
  show "length g = length h" using assms(1,2) by (simp add: wf_grid_def)
next
  fix i assume i: "i < length g"
  then have i': "i < GRID_ROWS" "i < length h" using assms(1,2) by (simp_all add: wf_grid_def)
  show "g ! i = h ! i"
  proof (rule nth_equalityI)
    show "length (g ! i) = length (h ! i)"
      using assms(1,2) i' by (simp add: wf_grid_nth)
  next
    fix j assume "j < length (g ! i)"
    then have "j < GRID_COLS" using assms(1) i' by (simp add: wf_grid_nth)
    then have "column g j ! i = column h j ! i" using assms(3) by simp
    then show "g ! i ! j = h ! i ! j" using i i' by (simp add: column_nth)
  qed
qed

lemma nonEmpty_compact: "nonEmpty (compact cs) = nonEmpty cs"
  by (simp add: compact_def nonEmpty_def)

lemma length_compact: "length (compact cs) = length cs"
  using length_nonEmpty_le[of cs] by (simp add: compact_def)

lemma compact_idem: "compact (compact cs) = compact cs"
  by (simp add: compact_def[of "compact cs"] nonEmpty_compact length_compact) (simp add: compact_def)

lemma applyGravity_idem: "wf_grid g \<Longrightarrow> applyGravity (applyGravity g) = applyGravity g"
  by (rule grid_eqI) (simp_all add: applyGravity_spec compact_idem)

lemma compact_settled:
  assumes "Suc cy < length cs"
  shows "compact cs ! cy = None \<or> compact cs ! Suc cy \<noteq> None"
proof (cases "cy < length cs - length (nonEmpty cs)")
  case True
  then show ?thesis by (simp add: compact_def nth_append)
next
  case False
  let ?k = "length cs - length (nonEmpty cs)"
  have "Suc cy - ?k < length (nonEmpty cs)"
    using False assms length_nonEmpty_le[of cs] by simp
  then have "nonEmpty cs ! (Suc cy - ?k) \<in> set (nonEmpty cs)"
    by (rule nth_mem)
  then have "nonEmpty cs ! (Suc cy - ?k) \<noteq> None"
    by (simp add: nonEmpty_def)
  then show ?thesis using False by (simp add: compact_def nth_append)
qed

lemma settled_iff:
  "settled g \<longleftrightarrow> (\<forall>cx<GRID_COLS. \<forall>cy. Suc cy < GRID_ROWS \<longrightarrow> g ! cy ! cx = None \<or> g ! Suc cy ! cx \<noteq> None)"
  by (simp add: settled_def list_all_iff Ball_def less_diff_conv)

lemma settled_applyGravity:
  assumes "wf_grid g"
  shows "settled (applyGravity g)"
  unfolding settled_iff
proof (intro allI impI)
  fix cx cy assume cx: "cx < GRID_COLS" and cy: "Suc cy < GRID_ROWS"
  have wf: "wf_grid (applyGravity g)" using assms by (rule applyGravity_spec)
  then have len: "length (applyGravity g) = GRID_ROWS" by (simp add: wf_grid_def)
  have "length (column g cx) = GRID_ROWS" using assms by (simp add: length_column wf_grid_def)
  then have "compact (column g cx) ! cy = None \<or> compact (column g cx) ! Suc cy \<noteq> None"
    using cy by (intro compact_settled) simp
  then have "column (applyGravity g) cx ! cy = None \<or> column (applyGravity g) cx ! Suc cy \<noteq> None"
    using applyGravity_spec(3)[OF assms cx] by simp
  then show "applyGravity g ! cy ! cx = None \<or> applyGravity g ! Suc cy ! cx \<noteq> None"
    using len cy by (simp add: column_nth)
qed

lemma wf_createEmptyGrid: "wf_grid createEmptyGrid"
  by (simp add: wf_grid_def createEmptyGrid_def list_all_length)

lemma wf_floatingGrid: "wf_grid floatingGrid"
  by (simp add: floatingGrid_def wf_grid_setCell wf_createEmptyGrid)

lemma wf_fiveGrid: "wf_grid fiveGrid"
  by code_simp


lemma length_concat_rows:
  "\<forall>r\<in>set g. length r = n \<Longrightarrow> length (concat g) = length g * n"
  by (induction g) auto

lemma occupied_le:
  assumes "wf_grid g"
  shows "occupied g \<le> GRID_ROWS * GRID_COLS"
proof -
  have "length (concat g) = GRID_ROWS * GRID_COLS"
    using assms length_concat_rows[of g GRID_COLS] by (simp add: wf_grid_def list_all_iff)
  then show ?thesis
    using length_nonEmpty_le[of "concat g"] by (simp add: occupied_def)
qed

section \<open>Match detection and the chain loop: proofs\<close>

lemma board_iff: "(kx, ky) \<in> board \<longleftrightarrow> inGrid kx ky"
  by (auto simp: board_def inGrid_def)

lemma set_setAdd: "set (setAdd s k) = insert k (set s)"
  by (auto simp: setAdd_def)

lemma distinct_setAdd: "distinct s \<Longrightarrow> distinct (setAdd s k)"
  by (simp add: setAdd_def)

lemma foldl_setAdd:
  "distinct ms \<Longrightarrow> distinct (foldl setAdd ms ks) \<and> set (foldl setAdd ms ks) = set ms \<union> set ks"
  by (induction ks arbitrary: ms) (simp_all add: distinct_setAdd set_setAdd)

lemma findConnectedPuyos_inv:
  assumes "distinct visited" "\<forall>k\<in>set visited. k \<in> board \<and> cellAt g k = color"
  shows "distinct (findConnectedPuyos g px py color visited) \<and>
         (\<forall>k\<in>set (findConnectedPuyos g px py color visited). k \<in> board \<and> cellAt g k = color)"
  using assms
proof (induction g px py color visited rule: findConnectedPuyos.induct)
  case (1 grid px py color visited)
  let ?P = "\<lambda>v. distinct v \<and> (\<forall>k\<in>set v. k \<in> board \<and> cellAt grid k = color)"
  show ?case
  proof (cases "px < 0 \<or> px \<ge> int GRID_COLS \<or> py < 0 \<or> py \<ge> int GRID_ROWS \<or>
         grid ! nat py ! nat px \<noteq> color \<or> (px, py) \<in> set visited")
    case True
    then show ?thesis using "1.prems" by (simp add: findConnectedPuyos.simps)
  next
    case False
    let ?v0 = "setAdd visited (px, py)"
    let ?v1 = "findConnectedPuyos grid (px + 1) py color ?v0"
    let ?v2 = "findConnectedPuyos grid (px - 1) py color ?v1"
    let ?v3 = "findConnectedPuyos grid px (py + 1) color ?v2"
    let ?v4 = "findConnectedPuyos grid px (py - 1) color ?v3"
    have "(px, py) \<in> board \<and> cellAt grid (px, py) = color"
      using False by (auto simp: board_def cellAt_def)
    then have p0: "?P ?v0"
      using "1.prems" by (simp add: distinct_setAdd set_setAdd)
    have p1: "?P ?v1" using "1.IH"(1)[OF False refl] p0 by blast
    have p2: "?P ?v2" using "1.IH"(2)[OF False refl refl] p1 by blast
    have p3: "?P ?v3" using "1.IH"(3)[OF False refl refl refl] p2 by blast
    have p4: "?P ?v4" using "1.IH"(4)[OF False refl refl refl refl] p3 by blast
    have "findConnectedPuyos grid px py color visited = ?v4"
      using False by (subst findConnectedPuyos.simps) (simp add: Let_def)
    then show ?thesis using p4 by simp
  qed
qed

lemma foldl_invariant:
  assumes "I a" "\<And>a b. I a \<Longrightarrow> b \<in> set bs \<Longrightarrow> I (f a b)"
  shows "I (foldl f a bs)"
  using assms by (induction bs arbitrary: a) simp_all

lemma scanCell_inv:
  assumes "occupiedKeys g (snd st)" "fst st \<longrightarrow> 4 \<le> length (snd st)"
  shows "occupiedKeys g (snd (scanCell g st c)) \<and>
         (fst (scanCell g st c) \<longrightarrow> 4 \<le> length (snd (scanCell g st c)))"
proof -
  obtain found ms where st: "st = (found, ms)" by (cases st)
  obtain cx cy where c: "c = (cx, cy)" by (cases c)
  let ?m = "findConnectedPuyos g (int cx) (int cy) (g ! cy ! cx) []"
  show ?thesis
  proof (cases "g ! cy ! cx \<noteq> None \<and> 4 \<le> length ?m")
    case False
    then show ?thesis using assms by (auto simp: scanCell_def st c Let_def)
  next
    case True
    have fm: "distinct ?m" "\<forall>k\<in>set ?m. k \<in> board \<and> cellAt g k = g ! cy ! cx"
      using findConnectedPuyos_inv[of "[]" g "g ! cy ! cx" "int cx" "int cy"] by simp_all
    have ms: "distinct ms" using assms(1) by (simp add: occupiedKeys_def st)
    note fs = foldl_setAdd[OF ms, of ?m]
    have "card (set ?m) \<le> card (set (foldl setAdd ms ?m))"
      using fs by (intro card_mono) auto
    moreover have "card (set ?m) = length ?m"
      using fm(1) by (rule distinct_card)
    moreover have "card (set (foldl setAdd ms ?m)) = length (foldl setAdd ms ?m)"
      using fs by (intro distinct_card) simp
    ultimately have "length ?m \<le> length (foldl setAdd ms ?m)"
      by simp
    moreover have "occupiedKeys g (foldl setAdd ms ?m)"
      using fs fm True assms(1) by (auto simp: occupiedKeys_def st)
    ultimately show ?thesis using True by (simp add: scanCell_def st c Let_def)
  qed
qed

lemma findMatches_inv:
  "occupiedKeys g (snd (findMatches g)) \<and> (fst (findMatches g) \<longrightarrow> 4 \<le> length (snd (findMatches g)))"
  unfolding findMatches_def
proof (rule foldl_invariant[where I = "\<lambda>st. occupiedKeys g (snd st) \<and> (fst st \<longrightarrow> 4 \<le> length (snd st))"])
  show "occupiedKeys g (snd (False, [])) \<and> (fst (False, []) \<longrightarrow> 4 \<le> length (snd (False, [])))"
    by (simp add: occupiedKeys_def)
next
  fix a b
  assume "occupiedKeys g (snd a) \<and> (fst a \<longrightarrow> 4 \<le> length (snd a))"
  then show "occupiedKeys g (snd (scanCell g a b)) \<and>
      (fst (scanCell g a b) \<longrightarrow> 4 \<le> length (snd (scanCell g a b)))"
    using scanCell_inv[of g a b] by simp
qed

lemma scan_union:
  assumes "distinct (snd st)"
  shows "distinct (snd (foldl (scanCell g) st cs)) \<and>
         set (snd (foldl (scanCell g) st cs)) =
           set (snd st) \<union> (\<Union>c\<in>{c \<in> set cs. (case c of (cx, cy) \<Rightarrow> g ! cy ! cx \<noteq> None) \<and>
                                  4 \<le> length (regionAt g c)}. set (regionAt g c)) \<and>
         fst (foldl (scanCell g) st cs) =
           (fst st \<or> (\<exists>c\<in>set cs. (case c of (cx, cy) \<Rightarrow> g ! cy ! cx \<noteq> None) \<and>
                                  4 \<le> length (regionAt g c)))"
  using assms
proof (induction cs arbitrary: st)
  case Nil
  then show ?case by simp
next
  case (Cons c cs)
  obtain found ms where st: "st = (found, ms)" by (cases st)
  obtain cx cy where c: "c = (cx, cy)" by (cases c)
  show ?case
  proof (cases "g ! cy ! cx \<noteq> None \<and> 4 \<le> length (regionAt g c)")
    case True
    have d: "distinct ms" using Cons.prems by (simp add: st)
    note fs = foldl_setAdd[OF d, of "regionAt g c"]
    have sc: "scanCell g st c = (True, foldl setAdd ms (regionAt g c))"
      using True by (simp add: scanCell_def st c regionAt_def Let_def)
    have "{c' \<in> set (c # cs). (case c' of (cx, cy) \<Rightarrow> g ! cy ! cx \<noteq> None) \<and>
              4 \<le> length (regionAt g c')} =
          insert c {c' \<in> set cs. (case c' of (cx, cy) \<Rightarrow> g ! cy ! cx \<noteq> None) \<and>
              4 \<le> length (regionAt g c')}"
      using True by (auto simp: c)
    then show ?thesis
      using Cons.IH[of "(True, foldl setAdd ms (regionAt g c))"] fs True sc
      by (simp add: st Un_assoc) (auto simp: c)
  next
    case False
    then have sc: "scanCell g st c = st"
      by (auto simp: scanCell_def st c regionAt_def Let_def)
    have "{c' \<in> set (c # cs). (case c' of (cx, cy) \<Rightarrow> g ! cy ! cx \<noteq> None) \<and>
              4 \<le> length (regionAt g c')} =
          {c' \<in> set cs. (case c' of (cx, cy) \<Rightarrow> g ! cy ! cx \<noteq> None) \<and>
              4 \<le> length (regionAt g c')}"
      using False by (auto simp: c)
    then show ?thesis
      using Cons.IH[of st] Cons.prems False sc by (auto simp: c)
  qed
qed

lemma findMatches_union:
  "distinct (snd (findMatches g)) \<and>
   set (snd (findMatches g)) = (\<Union>c\<in>set (clearingCells g). set (regionAt g c)) \<and>
   fst (findMatches g) = (clearingCells g \<noteq> [])"
  using scan_union[of "(False, [])" g allCells]
  by (auto simp: findMatches_def clearingCells_def filter_empty_conv)

lemma clearMatched_Cons:
  "clearMatched g ((kx, ky) # ks) = clearMatched (setCell g (nat kx) (nat ky) None) ks"
  by (simp add: clearMatched_def)

lemma clearMatched_spec:
  assumes "wf_grid g" "occupiedKeys g ks"
  shows "wf_grid (clearMatched g ks) \<and> occupied (clearMatched g ks) + length ks = occupied g"
  using assms
proof (induction ks arbitrary: g)
  case Nil
  then show ?case by (simp add: clearMatched_def)
next
  case (Cons k ks)
  obtain kx ky where k: "k = (kx, ky)" by (cases k)
  let ?g = "setCell g (nat kx) (nat ky) None"
  have kin: "inGrid kx ky" and kocc: "g ! nat ky ! nat kx \<noteq> None"
    using Cons.prems(2) by (simp_all add: occupiedKeys_def k board_iff cellAt_def)
  have lg: "length g = GRID_ROWS" using Cons.prems(1) by (simp add: wf_grid_def)
  have ny: "nat ky < GRID_ROWS" and nx: "nat kx < GRID_COLS"
    using kin by (auto simp: inGrid_def)
  have wf: "wf_grid ?g" using Cons.prems(1) by (rule wf_grid_setCell)
  have occ: "occupied ?g + 1 = occupied g"
    using occupied_setCell[of "nat ky" g "nat kx" None] ny nx lg wf_grid_nth[OF Cons.prems(1) ny] kocc
    by simp
  have "cellAt ?g k' \<noteq> None" if k': "k' \<in> set ks" for k'
  proof -
    obtain kx' ky' where e: "k' = (kx', ky')" by (cases k')
    have ne: "k' \<noteq> k" and in': "inGrid kx' ky'" and oc: "g ! nat ky' ! nat kx' \<noteq> None"
      using Cons.prems(2) k' by (auto simp: occupiedKeys_def e board_iff cellAt_def)
    have "nat ky' \<noteq> nat ky \<or> nat kx' \<noteq> nat kx"
      using ne kin in' by (auto simp: e k inGrid_def)
    then show ?thesis
      using oc by (auto simp: cellAt_def e nth_setCell)
  qed
  then have ok: "occupiedKeys ?g ks"
    using Cons.prems(2) by (simp add: occupiedKeys_def)
  show ?case
    using Cons.IH[OF wf ok] occ by (simp add: k clearMatched_Cons)
qed

lemma checkAndUpdateChain_no_match:
  assumes "\<not> fst (findMatches (newGrid l))"
  shows "checkAndUpdateChain (l, s) = (l\<lparr>hasMatches := False\<rparr>, s)"
proof -
  obtain ms where "findMatches (newGrid l) = (False, ms)"
    using assms by (cases "findMatches (newGrid l)") simp
  then show ?thesis by (simp add: checkAndUpdateChain_def)
qed

lemma checkAndUpdateChain_match:
  assumes "wf_grid (newGrid l)" "fst (findMatches (newGrid l))"
  shows "\<exists>l'. checkAndUpdateChain (l, s) =
           (l', s\<lparr>score := score s + chainPoints (length (snd (findMatches (newGrid l)))) (chainCount l + 1),
                  chainCounter := chainCount l + 1\<rparr>) \<and>
         hasMatches l' \<and> chainCount l' = chainCount l + 1 \<and>
         newGrid l' = applyGravity (clearMatched (newGrid l) (snd (findMatches (newGrid l)))) \<and>
         wf_grid (newGrid l') \<and> settled (newGrid l') \<and>
         4 \<le> length (snd (findMatches (newGrid l))) \<and>
         occupied (newGrid l') + length (snd (findMatches (newGrid l))) = occupied (newGrid l)"
proof -
  obtain ms where fm: "findMatches (newGrid l) = (True, ms)"
    using assms(2) by (cases "findMatches (newGrid l)") simp
  have ok: "occupiedKeys (newGrid l) ms" and four: "4 \<le> length ms"
    using findMatches_inv[of "newGrid l"] by (simp_all add: fm)
  note cl = clearMatched_spec[OF assms(1) ok]
  have wfc: "wf_grid (clearMatched (newGrid l) ms)" using cl by simp
  note ag = applyGravity_spec(1,2)[OF wfc] settled_applyGravity[OF wfc]
  show ?thesis
    using ag cl four by (simp add: checkAndUpdateChain_def fm Let_def)
qed

lemma hasMatches_step:
  "wf_grid (newGrid l) \<Longrightarrow>
   hasMatches (fst (checkAndUpdateChain (l, s))) = fst (findMatches (newGrid l))"
  using checkAndUpdateChain_match[of l s] checkAndUpdateChain_no_match[of l s]
  by (cases "fst (findMatches (newGrid l))") auto

lemma chainLoop_spec:
  assumes "wf_grid (newGrid l)"
  shows "\<exists>l' s'. chainLoop (l, s) = Some (l', s') \<and> wf_grid (newGrid l') \<and> \<not> hasMatches l' \<and>
           \<not> fst (findMatches (newGrid l')) \<and>
           (newGrid l' = newGrid l \<and> chainCount l' = chainCount l \<or> settled (newGrid l')) \<and>
           chainCount l \<le> chainCount l' \<and>
           occupied (newGrid l') + 4 * (chainCount l' - chainCount l) \<le> occupied (newGrid l) \<and>
           s' = s\<lparr>score := score s', chainCounter := chainCounter s'\<rparr>"
  using assms
proof (induction "occupied (newGrid l)" arbitrary: l s rule: less_induct)
  case less
  show ?case
  proof (cases "fst (findMatches (newGrid l))")
    case False
    have "chainLoop (l, s) = Some (l\<lparr>hasMatches := False\<rparr>, s)"
      by (subst chainLoop.simps) (simp add: checkAndUpdateChain_no_match[OF False])
    then show ?thesis using less.prems False by simp
  next
    case True
    let ?n = "length (snd (findMatches (newGrid l)))"
    let ?s1 = "s\<lparr>score := score s + chainPoints ?n (chainCount l + 1), chainCounter := chainCount l + 1\<rparr>"
    obtain l1 where st: "checkAndUpdateChain (l, s) = (l1, ?s1)"
      and l1: "hasMatches l1" "chainCount l1 = chainCount l + 1" "wf_grid (newGrid l1)"
        "settled (newGrid l1)" "4 \<le> ?n" "occupied (newGrid l1) + ?n = occupied (newGrid l)"
      using checkAndUpdateChain_match[OF less.prems True, of s] by blast
    have lt: "occupied (newGrid l1) < occupied (newGrid l)" using l1(5,6) by simp
    obtain l' s' where r: "chainLoop (l1, ?s1) = Some (l', s')" "wf_grid (newGrid l')"
        "\<not> hasMatches l'" "\<not> fst (findMatches (newGrid l'))"
        "newGrid l' = newGrid l1 \<and> chainCount l' = chainCount l1 \<or> settled (newGrid l')"
        "chainCount l1 \<le> chainCount l'"
        "occupied (newGrid l') + 4 * (chainCount l' - chainCount l1) \<le> occupied (newGrid l1)"
        "s' = ?s1\<lparr>score := score s', chainCounter := chainCounter s'\<rparr>"
      using less.hyps[OF lt l1(3), of ?s1] by blast
    have "chainLoop (l, s) = Some (l', s')"
      using r(1) by (subst chainLoop.simps) (simp add: st l1(1))
    moreover have "settled (newGrid l')" using r(5) l1(4) by auto
    moreover have "occupied (newGrid l') + 4 * (chainCount l' - chainCount l) \<le> occupied (newGrid l)"
      using r(6,7) l1(2,5,6) by simp
    moreover have "s' = s\<lparr>score := score s', chainCounter := chainCounter s'\<rparr>"
      using r(8) by simp
    ultimately show ?thesis using r(2,3,4,6) l1(2) by simp
  qed
qed

lemma applyGravityAndCheck_spec:
  assumes "wf_grid g"
  shows "\<exists>gf sc cc. applyGravityAndCheck g s =
           Inr ((gameOverCheck gf (s\<lparr>isAnimating := True, score := sc, chainCounter := cc,
                  grid := gf\<rparr>))\<lparr>isAnimating := False\<rparr>) \<and>
         wf_grid gf \<and> settled gf \<and> \<not> fst (findMatches gf)"
proof -
  let ?l = "\<lparr>newGrid = applyGravity g, chainCount = 0, hasMatches = False\<rparr>"
  let ?s = "s\<lparr>isAnimating := True\<rparr>"
  have wf: "wf_grid (newGrid ?l)" using assms by (simp add: applyGravity_spec)
  obtain l' s' where r: "chainLoop (?l, ?s) = Some (l', s')" "wf_grid (newGrid l')"
      "\<not> fst (findMatches (newGrid l'))"
      "newGrid l' = newGrid ?l \<and> chainCount l' = chainCount ?l \<or> settled (newGrid l')"
      "s' = ?s\<lparr>score := score s', chainCounter := chainCounter s'\<rparr>"
    using chainLoop_spec[OF wf, of ?s] by blast
  have "settled (newGrid l')"
    using r(4) settled_applyGravity[OF assms] by auto
  moreover have "applyGravityAndCheck g s =
      Inr ((gameOverCheck (newGrid l') (s\<lparr>isAnimating := True, score := score s',
              chainCounter := chainCounter s', grid := newGrid l'\<rparr>))\<lparr>isAnimating := False\<rparr>)"
    using r(5) by (simp add: applyGravityAndCheck_def r(1))
  ultimately show ?thesis using r(2,3) by blast
qed

lemma checkForMatches_spec:
  assumes "wf_grid g"
  shows "\<exists>gf sc cc. checkForMatches rnd g s =
           Inr (gameOverCheck gf (s\<lparr>score := sc, chainCounter := cc, grid := gf,
                  currentPuyo := nextPuyo s, nextPuyo := Some (generatePuyoPair rnd)\<rparr>)) \<and>
         wf_grid gf \<and> (gf = g \<or> settled gf) \<and> \<not> fst (findMatches gf)"
proof -
  let ?l = "\<lparr>newGrid = g, chainCount = 0, hasMatches = False\<rparr>"
  have wf: "wf_grid (newGrid ?l)" using assms by simp
  obtain l' s' where r: "chainLoop (?l, s) = Some (l', s')" "wf_grid (newGrid l')"
      "\<not> fst (findMatches (newGrid l'))"
      "newGrid l' = newGrid ?l \<and> chainCount l' = chainCount ?l \<or> settled (newGrid l')"
      "s' = s\<lparr>score := score s', chainCounter := chainCounter s'\<rparr>"
    using chainLoop_spec[OF wf, of s] by blast
  have "newGrid l' = g \<or> settled (newGrid l')" using r(4) by auto
  moreover have "checkForMatches rnd g s =
      Inr (gameOverCheck (newGrid l') (s\<lparr>score := score s', chainCounter := chainCounter s',
             grid := newGrid l', currentPuyo := nextPuyo s,
             nextPuyo := Some (generatePuyoPair rnd)\<rparr>))"
    using r(5) by (simp add: checkForMatches_def r(1))
  ultimately show ?thesis using r(2,3) by blast
qed

text \<open>
  One step of the loop from any value of the counter: a step that clears counts itself and adds
  the points of the cells it removed, which are the cells of the regions of at least four
  cells taken together; a step that clears nothing changes neither the score nor the counter
  nor the grid.
\<close>

lemma checkAndUpdateChain_step_score:
  assumes "wf_grid (newGrid l)"
  shows "case checkAndUpdateChain (l, s) of (l', s') \<Rightarrow>
           (if hasMatches l' then
              chainCount l' = chainCount l + 1 \<and>
              score s' - score s =
                int (occupied (newGrid l) - occupied (newGrid l')) * 10 * 2 ^ (chainCount l' - 1)
                + max 0 (int (occupied (newGrid l) - occupied (newGrid l')) - 4) * 5 \<and>
              occupied (newGrid l) - occupied (newGrid l') =
                card (\<Union>c\<in>set (clearingCells (newGrid l)). set (regionAt (newGrid l) c))
            else score s' = score s \<and> chainCount l' = chainCount l \<and> newGrid l' = newGrid l)"
proof (cases "fst (findMatches (newGrid l))")
  case False
  then show ?thesis by (simp add: checkAndUpdateChain_no_match)
next
  case True
  let ?n = "length (snd (findMatches (newGrid l)))"
  obtain l' where st: "checkAndUpdateChain (l, s) =
        (l', s\<lparr>score := score s + chainPoints ?n (chainCount l + 1), chainCounter := chainCount l + 1\<rparr>)"
      and l': "hasMatches l'" "chainCount l' = chainCount l + 1"
        "occupied (newGrid l') + ?n = occupied (newGrid l)"
    using checkAndUpdateChain_match[OF assms True, of s] by blast
  have n: "occupied (newGrid l) - occupied (newGrid l') = ?n" using l'(3) by simp
  have "card (set (snd (findMatches (newGrid l)))) = ?n"
    using findMatches_union[of "newGrid l"] by (intro distinct_card) simp
  then have u: "card (\<Union>c\<in>set (clearingCells (newGrid l)). set (regionAt (newGrid l) c)) = ?n"
    using findMatches_union[of "newGrid l"] by simp
  show ?thesis
    using l' n u by (simp add: st chainPoints_def)
qed

text \<open>
  The loop as a whole: it returns, the grids it scans are the \<open>clearingRun\<close> of the grid it
  starts on, and the points it adds are those of the steps, the counter going up by one at each.
\<close>

lemma clearingRun_hd: "clearingRun g gs \<Longrightarrow> gs \<noteq> [] \<and> hd gs = g"
  by (induction g gs rule: clearingRun.induct) auto

lemma clearingRun_Cons:
  "fst (findMatches g) \<Longrightarrow>
   clearingRun (applyGravity (clearMatched g (snd (findMatches g)))) gs \<Longrightarrow>
   clearingRun g (g # gs)"
  by (cases gs) auto

lemma clearingRun_unique:
  "clearingRun g gs \<Longrightarrow> clearingRun g gs' \<Longrightarrow> gs = gs'"
proof (induction g gs arbitrary: gs' rule: clearingRun.induct)
  case (1 g)
  then show ?case by simp
next
  case (2 g g')
  show ?case
  proof (cases gs')
    case Nil
    then show ?thesis using 2 by simp
  next
    case (Cons a as)
    then show ?thesis using 2 by (cases as) auto
  qed
next
  case (3 g g' g'' gs)
  show ?case
  proof (cases gs')
    case Nil
    then show ?thesis using 3 by simp
  next
    case (Cons a as)
    show ?thesis
    proof (cases as)
      case Nil
      then show ?thesis using 3 Cons by simp
    next
      case (Cons b bs)
      then show ?thesis using 3 \<open>gs' = a # as\<close> by auto
    qed
  qed
qed

lemma chainLoop_run:
  assumes "wf_grid (newGrid l)"
  shows "\<exists>gs l' s'. clearingRun (newGrid l) gs \<and> chainLoop (l, s) = Some (l', s') \<and>
           newGrid l' = last gs \<and>
           score s' = score s +
             (\<Sum>k<length gs - 1. chainPoints (occupied (gs ! k) - occupied (gs ! Suc k))
                                   (chainCount l + k + 1)) \<and>
           chainCounter s' = (if length gs = 1 then chainCounter s else chainCount l + (length gs - 1)) \<and>
           (\<forall>k<length gs - 1.
              occupied (gs ! k) - occupied (gs ! Suc k) =
                card (\<Union>c\<in>set (clearingCells (gs ! k)). set (regionAt (gs ! k) c)))"
  using assms
proof (induction "occupied (newGrid l)" arbitrary: l s rule: less_induct)
  case less
  show ?case
  proof (cases "fst (findMatches (newGrid l))")
    case False
    have "chainLoop (l, s) = Some (l\<lparr>hasMatches := False\<rparr>, s)"
      by (subst chainLoop.simps) (simp add: checkAndUpdateChain_no_match[OF False])
    moreover have "clearingRun (newGrid l) [newGrid l]" using False by simp
    ultimately show ?thesis
      by (intro exI[of _ "[newGrid l]"] exI[of _ "l\<lparr>hasMatches := False\<rparr>"] exI[of _ s]) simp
  next
    case True
    let ?g = "newGrid l"
    let ?n = "length (snd (findMatches ?g))"
    let ?s1 = "s\<lparr>score := score s + chainPoints ?n (chainCount l + 1), chainCounter := chainCount l + 1\<rparr>"
    obtain l1 where st: "checkAndUpdateChain (l, s) = (l1, ?s1)"
      and l1: "hasMatches l1" "chainCount l1 = chainCount l + 1" "wf_grid (newGrid l1)"
        "newGrid l1 = applyGravity (clearMatched ?g (snd (findMatches ?g)))"
        "4 \<le> ?n" "occupied (newGrid l1) + ?n = occupied ?g"
      using checkAndUpdateChain_match[OF less.prems True, of s] by blast
    have lt: "occupied (newGrid l1) < occupied ?g" using l1(5,6) by simp
    let ?U = "\<lambda>g. card (\<Union>c\<in>set (clearingCells g). set (regionAt g c))"
    obtain gs1 l' s' where r: "clearingRun (newGrid l1) gs1" "chainLoop (l1, ?s1) = Some (l', s')"
        "newGrid l' = last gs1"
        "score s' = score ?s1 +
             (\<Sum>k<length gs1 - 1. chainPoints (occupied (gs1 ! k) - occupied (gs1 ! Suc k))
                                   (chainCount l1 + k + 1))"
        "chainCounter s' = (if length gs1 = 1 then chainCounter ?s1 else chainCount l1 + (length gs1 - 1))"
        "\<forall>k<length gs1 - 1. occupied (gs1 ! k) - occupied (gs1 ! Suc k) = ?U (gs1 ! k)"
      using less.hyps[OF lt l1(3), of ?s1] by blast
    let ?gs = "?g # gs1"
    have ne: "gs1 \<noteq> []" and hd1: "hd gs1 = newGrid l1" using clearingRun_hd[OF r(1)] by simp_all
    then obtain m where m: "length gs1 = Suc m" by (cases gs1) auto
    have g0: "gs1 ! 0 = newGrid l1" using ne hd1 by (simp add: hd_conv_nth)
    have n0: "occupied ?g - occupied (newGrid l1) = ?n" using l1(6) by simp
    have u0: "?U ?g = ?n"
    proof -
      have "card (set (snd (findMatches ?g))) = ?n"
        using findMatches_union[of ?g] by (intro distinct_card) simp
      then show ?thesis using findMatches_union[of ?g] by simp
    qed
    have run: "clearingRun ?g ?gs"
      using clearingRun_Cons[OF True] r(1) l1(4) by simp
    have loop: "chainLoop (l, s) = Some (l', s')"
      using r(2) by (subst chainLoop.simps) (simp add: st l1(1))
    have lastg: "newGrid l' = last ?gs" using r(3) ne by simp
    have sc: "score s' = score s +
             (\<Sum>k<length ?gs - 1. chainPoints (occupied (?gs ! k) - occupied (?gs ! Suc k))
                                   (chainCount l + k + 1))"
      using r(4) by (simp add: m sum.lessThan_Suc_shift g0 n0 l1(2) del: sum.lessThan_Suc)
    have cc: "chainCounter s' = (if length ?gs = 1 then chainCounter s else chainCount l + (length ?gs - 1))"
      using r(5) ne by (simp add: m l1(2))
    have un: "\<forall>k<length ?gs - 1. occupied (?gs ! k) - occupied (?gs ! Suc k) = ?U (?gs ! k)"
    proof (intro allI impI)
      fix k assume k: "k < length ?gs - 1"
      show "occupied (?gs ! k) - occupied (?gs ! Suc k) = ?U (?gs ! k)"
      proof (cases k)
        case 0
        then show ?thesis using n0 u0 g0 by simp
      next
        case (Suc j)
        then show ?thesis using r(6) k by (simp add: m)
      qed
    qed
    show ?thesis
      using run loop lastg sc cc un by blast
  qed
qed


lemma resolver_fields:
  "score (gameOverCheck gf s) = score s \<and> chainCounter (gameOverCheck gf s) = chainCounter s \<and>
   grid (gameOverCheck gf s) = grid s"
  by (simp add: gameOverCheck_def)

lemma chain_example:
  "wf_grid chainGrid \<and> applyGravity chainGrid = chainGrid \<and>
   clearingRun chainGrid [chainGrid, fourBlueGrid, createEmptyGrid] \<and>
   occupied chainGrid = 8 \<and> occupied fourBlueGrid = 4 \<and> occupied createEmptyGrid = 0"
  by code_simp

lemma five_example:
  "wf_grid fiveGrid \<and> applyGravity fiveGrid = fiveGrid \<and>
   clearingRun fiveGrid [fiveGrid, createEmptyGrid] \<and>
   occupied fiveGrid = 5 \<and> occupied createEmptyGrid = 0"
  by code_simp

lemma applyGravityAndCheck_scans_settled:
  assumes "wf_grid g"
  shows "settled (applyGravity g) \<and>
         applyGravityAndCheck g s =
           (case chainLoop (\<lparr>newGrid = applyGravity g, chainCount = 0, hasMatches = False\<rparr>,
                            s\<lparr>isAnimating := True\<rparr>) of
              None \<Rightarrow> Inl NoReturn
            | Some (l, s') \<Rightarrow>
                Inr ((gameOverCheck (newGrid l) (s'\<lparr>grid := newGrid l\<rparr>))\<lparr>isAnimating := False\<rparr>))"
  using assms by (simp add: settled_applyGravity applyGravityAndCheck_def)

section \<open>The session invariant: proofs\<close>

lemma rowEmpty_nth:
  assumes "wf_grid g" "rowEmpty g cy" "cy < GRID_ROWS" "cx < GRID_COLS"
  shows "g ! cy ! cx = None"
proof -
  have "length (g ! cy) = GRID_COLS" using assms(1,3) by (rule wf_grid_nth)
  then have "g ! cy ! cx \<in> set (g ! cy)" using assms(4) by simp
  then show ?thesis using assms(2) by (auto simp: rowEmpty_def list_ex_iff)
qed

lemma rowEmptyI:
  assumes "wf_grid g" "cy < GRID_ROWS" "\<And>cx. cx < GRID_COLS \<Longrightarrow> g ! cy ! cx = None"
  shows "rowEmpty g cy"
proof -
  have len: "length (g ! cy) = GRID_COLS" using assms(1,2) by (rule wf_grid_nth)
  have "c = None" if "c \<in> set (g ! cy)" for c
    using that assms(3) len by (auto simp: in_set_conv_nth)
  then show ?thesis by (auto simp: rowEmpty_def list_ex_iff)
qed

lemma rowEmpty_createEmptyGrid: "cy < GRID_ROWS \<Longrightarrow> rowEmpty createEmptyGrid cy"
  by (simp add: rowEmpty_def createEmptyGrid_def list_ex_iff)

lemma settled_rows:
  assumes "wf_grid g" "settled g" "rowEmpty g 1"
  shows "rowEmpty g 0"
proof (rule rowEmptyI[OF assms(1)])
  show "0 < GRID_ROWS" by (simp add: GRID_ROWS_def)
next
  fix cx assume cx: "cx < GRID_COLS"
  have "g ! 1 ! cx = None"
    using assms(1,3) cx by (intro rowEmpty_nth) (simp_all add: GRID_ROWS_def)
  moreover have "g ! 0 ! cx = None \<or> g ! Suc 0 ! cx \<noteq> None"
    using assms(2) cx unfolding settled_iff by (simp add: GRID_ROWS_def)
  ultimately show "g ! 0 ! cx = None" by simp
qed

lemma second_cases:
  "getSecondPuyoPosition px py r = (x2, y2) \<Longrightarrow>
   getSecondPuyoPosition px (py + 1) r = (x2, y2 + 1) \<and> (y2 = py - 1 \<or> y2 = py \<or> y2 = py + 1)"
  by (auto simp: getSecondPuyoPosition_def split: if_splits)

lemma spawn_can_fall:
  assumes "wf_grid g" "rowEmpty g 0" "rowEmpty g 1" "atSpawn p"
  shows "isValidMove g (movedPuyo down p)"
proof -
  have "g ! 1 ! 2 = None" "g ! 0 ! 2 = None"
    using assms(1-3) by (auto intro!: rowEmpty_nth simp: GRID_ROWS_def GRID_COLS_def)
  then show ?thesis
    using assms(4)
    by (simp add: isValidMove_def movedPuyo_def atSpawn_def getSecondPuyoPosition_def
        GRID_ROWS_def GRID_COLS_def)
qed

lemma valid_writesInGrid: "isValidMove g p \<Longrightarrow> writesInGrid p"
  by (auto simp: isValidMove_def writesInGrid_def inGrid_def split: prod.splits)

lemma atSpawn_not_valid:
  assumes "atSpawn p"
  shows "\<not> isValidMove g p \<and> getSecondPuyoPosition (x p) (y p) (rotation p) = (2, -1)"
  using assms by (simp add: atSpawn_def isValidMove_def getSecondPuyoPosition_def)

lemma lock_valid:
  assumes "sessionInv s" "gameState s = active" "currentPuyo s = Some p"
      "\<not> isValidMove (grid s) (movedPuyo down p)"
  shows "isValidMove (grid s) p"
  using assms spawn_can_fall[of "grid s" p] by (auto simp: sessionInv_def)

lemma wf_lockedGrid: "wf_grid g \<Longrightarrow> wf_grid (lockedGrid g p)"
  by (simp add: lockedGrid_def wf_grid_setCell split: prod.splits)

text \<open>
  In \<^verbatim>\<open>part_000\<close> no gravity runs when nothing matches. If row 1 is empty after a lock, the
  locked pair has no cell in row 0 either: with both cells in row 0 it could have moved down.
\<close>

lemma lock_rows_v0:
  assumes wf: "wf_grid g" and r0: "rowEmpty g 0" and r1: "rowEmpty g 1"
      and v: "isValidMove g p" and nv: "\<not> isValidMove g (movedPuyo down p)"
      and col: "coloured p" and r1': "rowEmpty (lockedGrid g p) 1"
  shows "rowEmpty (lockedGrid g p) 0"
proof -
  obtain x2 y2 where sec: "getSecondPuyoPosition (x p) (y p) (rotation p) = (x2, y2)"
    by (cases "getSecondPuyoPosition (x p) (y p) (rotation p)")
  note sc = second_cases[OF sec]
  let ?g1 = "setCell g (nat (x p)) (nat (y p)) (color1 p)"
  have lg: "lockedGrid g p = setCell ?g1 (nat x2) (nat y2) (color2 p)"
    by (simp add: lockedGrid_def sec)
  have b: "0 \<le> x p" "x p < int GRID_COLS" "0 \<le> y p" "y p < int GRID_ROWS"
      "0 \<le> x2" "x2 < int GRID_COLS" "0 \<le> y2" "y2 < int GRID_ROWS"
    using v by (simp_all add: isValidMove_def sec)
  have wf1: "wf_grid ?g1" using wf by (rule wf_grid_setCell)
  have wf': "wf_grid (lockedGrid g p)" using wf by (rule wf_lockedGrid)
  have len: "length g = GRID_ROWS" "length ?g1 = GRID_ROWS"
    using wf wf1 by (simp_all add: wf_grid_def)
  have rl: "length (g ! nat (y p)) = GRID_COLS" "length (?g1 ! nat y2) = GRID_COLS"
    using wf wf1 b by (auto intro!: wf_grid_nth)
  have y2_ne1: "y2 \<noteq> 1"
  proof
    assume "y2 = 1"
    then have "lockedGrid g p ! 1 ! nat x2 = color2 p"
      using len rl b by (simp add: lg nth_setCell GRID_ROWS_def)
    moreover have "lockedGrid g p ! 1 ! nat x2 = None"
      using wf' r1' b by (intro rowEmpty_nth) (auto simp: GRID_ROWS_def)
    ultimately show False using col by (simp add: coloured_def)
  qed
  have y_ne1: "y p \<noteq> 1"
  proof
    assume y1: "y p = 1"
    then have "y2 \<noteq> 1" using y2_ne1 by simp
    then have "lockedGrid g p ! 1 ! nat (x p) = color1 p"
      using len rl b y1 y2_ne1 by (auto simp: lg nth_setCell GRID_ROWS_def)
    moreover have "lockedGrid g p ! 1 ! nat (x p) = None"
      using wf' r1' b by (intro rowEmpty_nth) (auto simp: GRID_ROWS_def)
    ultimately show False using col by (simp add: coloured_def)
  qed
  have not0: "y p \<noteq> 0 \<and> y2 \<noteq> 0"
  proof (rule ccontr)
    assume "\<not> (y p \<noteq> 0 \<and> y2 \<noteq> 0)"
    then have both: "y p = 0 \<and> y2 = 0" using sc b y2_ne1 y_ne1 by auto
    have "g ! 1 ! nat (x p) = None" "g ! 1 ! nat x2 = None"
      using wf r1 b by (auto intro!: rowEmpty_nth simp: GRID_ROWS_def)
    then have "isValidMove g (movedPuyo down p)"
      using both b sc by (simp add: isValidMove_def movedPuyo_def GRID_ROWS_def)
    then show False using nv by simp
  qed
  show ?thesis
  proof (rule rowEmptyI[OF wf'])
    show "0 < GRID_ROWS" by (simp add: GRID_ROWS_def)
  next
    fix cx assume cx: "cx < GRID_COLS"
    have "lockedGrid g p ! 0 = g ! 0"
      using not0 b by (auto simp: lg nth_setCell)
    then show "lockedGrid g p ! 0 ! cx = None"
      using rowEmpty_nth[OF wf r0 _ cx] by (simp add: GRID_ROWS_def)
  qed
qed

lemma generated_ok: "atSpawn (generatePuyoPair rnd) \<and> coloured (generatePuyoPair rnd)"
  by (simp add: atSpawn_def coloured_def generatePuyoPair_def)

lemma list_all_drop: "list_all P xs \<Longrightarrow> list_all P (drop n xs)"
  by (auto simp: list_all_iff dest: in_set_dropD)

lemma head_ok:
  "list_all P xs \<Longrightarrow> (case (case xs of [] \<Rightarrow> None | p # _ \<Rightarrow> Some p) of None \<Rightarrow> True | Some p \<Rightarrow> P p)"
  by (cases xs) simp_all

lemma gameOverCheck_rows:
  "gameState (gameOverCheck gf s) = active \<Longrightarrow> rowEmpty gf 1 \<and> gameState s = active"
  by (auto simp: gameOverCheck_def rowEmpty_def split: if_splits)

lemma inv_placePuyo:
  assumes "sessionInv s" "gameState s = active" "currentPuyo s = Some p"
      "\<not> isValidMove (grid s) (movedPuyo down p)"
  shows "\<exists>s'. placePuyo rnd s = Inr s' \<and> sessionInv s'"
proof -
  have v: "isValidMove (grid s) p" using assms by (rule lock_valid)
  then have w: "writesInGrid p" by (rule valid_writesInGrid)
  let ?g = "lockedGrid (grid s) p"
  let ?s1 = "s\<lparr>grid := ?g,
      currentPuyo := (case nextPuyos s of [] \<Rightarrow> None | p # _ \<Rightarrow> Some p),
      nextPuyos := drop 1 (nextPuyos s) @ [generatePuyoPair rnd], canHold := True\<rparr>"
  have wf: "wf_grid ?g" using assms(1) by (simp add: sessionInv_def wf_lockedGrid)
  obtain gf sc cc where r: "applyGravityAndCheck ?g ?s1 =
      Inr ((gameOverCheck gf (?s1\<lparr>isAnimating := True, score := sc, chainCounter := cc,
             grid := gf\<rparr>))\<lparr>isAnimating := False\<rparr>)" "wf_grid gf" "settled gf"
    using applyGravityAndCheck_spec[OF wf, of ?s1] by blast
  let ?s' = "(gameOverCheck gf (?s1\<lparr>isAnimating := True, score := sc, chainCounter := cc,
             grid := gf\<rparr>))\<lparr>isAnimating := False\<rparr>"
  have pp: "placePuyo rnd s = Inr ?s'"
    using w r(1) by (simp add: placePuyo_def assms(3) Let_def)
  have nx: "list_all (\<lambda>p. atSpawn p \<and> coloured p) (nextPuyos s)"
    using assms(1) by (simp add: sessionInv_def)
  note hd = head_ok[OF nx]
  have rows: "rowEmpty gf 0 \<and> rowEmpty gf 1" if "gameState ?s' = active"
    using that gameOverCheck_rows[of gf] settled_rows[OF r(2,3)] by auto
  have "sessionInv ?s'"
    using assms(1) r(2) nx hd rows generated_ok[of rnd]
    by (auto simp: sessionInv_def gameOverCheck_def list_all_drop split: option.splits)
  then show ?thesis using pp by blast
qed

lemma inv_placePuyo_v0:
  assumes "sessionInv s" "gameState s = active" "currentPuyo s = Some p"
      "\<not> isValidMove (grid s) (movedPuyo down p)"
  shows "\<exists>s'. placePuyo_v0 rnd s = Inr s' \<and> sessionInv s'"
proof -
  have v: "isValidMove (grid s) p" using assms by (rule lock_valid)
  then have w: "writesInGrid p" by (rule valid_writesInGrid)
  let ?g = "lockedGrid (grid s) p"
  let ?s1 = "s\<lparr>grid := ?g, currentPuyo := None\<rparr>"
  have wfs: "wf_grid (grid s)" and r01: "rowEmpty (grid s) 0" "rowEmpty (grid s) 1"
    and col: "coloured p"
    using assms(1-3) by (simp_all add: sessionInv_def)
  have wf: "wf_grid ?g" using wfs by (rule wf_lockedGrid)
  obtain gf sc cc where r: "checkForMatches rnd ?g ?s1 =
      Inr (gameOverCheck gf (?s1\<lparr>score := sc, chainCounter := cc, grid := gf,
             currentPuyo := nextPuyo ?s1, nextPuyo := Some (generatePuyoPair rnd)\<rparr>))"
      "wf_grid gf" "gf = ?g \<or> settled gf"
    using checkForMatches_spec[OF wf, of rnd ?s1] by blast
  let ?s' = "gameOverCheck gf (?s1\<lparr>score := sc, chainCounter := cc, grid := gf,
             currentPuyo := nextPuyo ?s1, nextPuyo := Some (generatePuyoPair rnd)\<rparr>)"
  have pp: "placePuyo_v0 rnd s = Inr ?s'"
    using w r(1) by (simp add: placePuyo_v0_def assms(3) Let_def)
  have rows: "rowEmpty gf 0 \<and> rowEmpty gf 1" if a: "gameState ?s' = active"
  proof -
    have r1: "rowEmpty gf 1" using a gameOverCheck_rows[of gf] by auto
    show ?thesis
    proof (cases "settled gf")
      case True
      then show ?thesis using r1 settled_rows[OF r(2)] by simp
    next
      case False
      then have "gf = ?g" using r(3) by simp
      then show ?thesis
        using r1 lock_rows_v0[OF wfs r01 v assms(4) col] by simp
    qed
  qed
  have "sessionInv ?s'"
    using assms(1) r(2) rows generated_ok[of rnd]
    by (auto simp: sessionInv_def gameOverCheck_def split: option.splits)
  then show ?thesis using pp by blast
qed

lemma coloured_movedPuyo: "coloured (movedPuyo d p) = coloured p"
  by (cases d) (simp_all add: movedPuyo_def coloured_def)

lemma inv_movePuyo:
  assumes "sessionInv s" "movePuyo d rnd s = Inr s'"
  shows "sessionInv s'"
proof (cases "currentPuyo s")
  case None
  then show ?thesis using assms by (simp add: movePuyo_def)
next
  case (Some p)
  show ?thesis
  proof (cases "gameState s \<noteq> active \<or> isPaused s")
    case True
    then show ?thesis using assms Some by (auto simp: movePuyo_def)
  next
    case gate: False
    show ?thesis
    proof (cases "isValidMove (grid s) (movedPuyo d p)")
      case True
      then have "s' = s\<lparr>currentPuyo := Some (movedPuyo d p)\<rparr>"
        using assms(2) Some gate by (simp add: movePuyo_def Let_def)
      then show ?thesis
        using assms(1) True Some by (simp add: sessionInv_def coloured_movedPuyo)
    next
      case nv: False
      show ?thesis
      proof (cases "d = down")
        case True
        then have "placePuyo rnd s = Inr s'"
          using assms(2) Some gate nv by (simp add: movePuyo_def Let_def)
        moreover obtain s'' where "placePuyo rnd s = Inr s''" "sessionInv s''"
          using inv_placePuyo[OF assms(1) _ Some, of rnd] gate nv True by auto
        ultimately show ?thesis by simp
      next
        case False
        then have "s' = s" using assms(2) Some nv gate by (simp add: movePuyo_def Let_def)
        then show ?thesis using assms(1) by simp
      qed
    qed
  qed
qed

lemma inv_movePuyo_v0:
  assumes "sessionInv s" "movePuyo_v0 d rnd s = Inr s'"
  shows "sessionInv s'"
proof (cases "currentPuyo s")
  case None
  then show ?thesis using assms by (simp add: movePuyo_v0_def)
next
  case (Some p)
  show ?thesis
  proof (cases "gameState s \<noteq> active \<or> isPaused s")
    case True
    then show ?thesis using assms Some by (auto simp: movePuyo_v0_def)
  next
    case gate: False
    show ?thesis
    proof (cases "isValidMove (grid s) (movedPuyo d p)")
      case True
      then have "s' = s\<lparr>currentPuyo := Some (movedPuyo d p)\<rparr>"
        using assms(2) Some gate by (simp add: movePuyo_v0_def Let_def)
      then show ?thesis
        using assms(1) True Some by (simp add: sessionInv_def coloured_movedPuyo)
    next
      case nv: False
      show ?thesis
      proof (cases "d = down")
        case True
        then have "placePuyo_v0 rnd s = Inr s'"
          using assms(2) Some gate nv by (simp add: movePuyo_v0_def Let_def)
        moreover obtain s'' where "placePuyo_v0 rnd s = Inr s''" "sessionInv s''"
          using inv_placePuyo_v0[OF assms(1) _ Some, of rnd] gate nv True by auto
        ultimately show ?thesis by simp
      next
        case False
        then have "s' = s" using assms(2) Some nv gate by (simp add: movePuyo_v0_def Let_def)
        then show ?thesis using assms(1) by simp
      qed
    qed
  qed
qed

lemma inv_rotatePuyo: "sessionInv s \<Longrightarrow> sessionInv (rotatePuyo d s)"
  by (auto simp: rotatePuyo_def sessionInv_def Let_def coloured_def split: option.splits)

lemma inv_holdPuyo:
  assumes "sessionInv s"
  shows "sessionInv (holdPuyo rnd s)"
proof -
  have nx: "list_all (\<lambda>p. atSpawn p \<and> coloured p) (nextPuyos s)"
    using assms by (simp add: sessionInv_def)
  note hd = head_ok[OF nx]
  show ?thesis
    using assms hd generated_ok[of rnd]
    by (auto simp: holdPuyo_def sessionInv_def list_all_drop atSpawn_def coloured_def
        split: option.splits)
qed

lemma inv_togglePause: "sessionInv s \<Longrightarrow> sessionInv (togglePause s)"
  by (simp add: togglePause_def sessionInv_def split: option.splits)

lemma inv_speedIncrease: "sessionInv s \<Longrightarrow> sessionInv (speedIncrease s)"
  by (simp add: speedIncrease_def sessionInv_def split: option.splits)

lemma inv_startGame: "sessionInv s \<Longrightarrow> sessionInv (startGame r1 r2 r3 r4 s)"
  using generated_ok
  by (simp add: startGame_def sessionInv_def wf_createEmptyGrid rowEmpty_createEmptyGrid
      GRID_ROWS_def)

lemma inv_startGame_v0: "sessionInv s \<Longrightarrow> sessionInv (startGame_v0 r1 r2 s)"
  using generated_ok
  by (simp add: startGame_v0_def sessionInv_def wf_createEmptyGrid rowEmpty_createEmptyGrid
      GRID_ROWS_def)

lemma inv_initialSession: "sessionInv initialSession"
  by (simp add: initialSession_def sessionInv_def wf_createEmptyGrid)

lemma inv_chainReset: "sessionInv s \<Longrightarrow> sessionInv (s\<lparr>chainCounter := 0\<rparr>)"
  by (simp add: sessionInv_def split: option.splits)

lemma inv_step: "sessionInv s \<Longrightarrow> step c s = Inr s' \<Longrightarrow> sessionInv s'"
  by (cases c)
     (auto simp: inv_startGame inv_togglePause inv_rotatePuyo inv_holdPuyo inv_speedIncrease
        inv_chainReset intro: inv_movePuyo)

lemma inv_step_v0: "sessionInv s \<Longrightarrow> step_v0 c s = Inr s' \<Longrightarrow> sessionInv s'"
  by (cases c)
     (auto simp: inv_startGame_v0 inv_togglePause inv_rotatePuyo inv_speedIncrease
        inv_chainReset intro: inv_movePuyo_v0)

lemma reachable_inv: "reachable s \<Longrightarrow> sessionInv s"
  by (induction rule: reachable.induct) (auto intro: inv_initialSession inv_step)

lemma reachable_v0_inv: "reachable_v0 s \<Longrightarrow> sessionInv s"
  by (induction rule: reachable_v0.induct) (auto intro: inv_initialSession inv_step_v0)

lemma run_reachable: "reachable s \<Longrightarrow> run step cs s = Inr s' \<Longrightarrow> reachable s'"
proof (induction cs arbitrary: s)
  case Nil
  then show ?case by simp
next
  case (Cons c cs)
  then show ?case
    by (cases "step c s") (auto intro: reachable_step)
qed

lemma run_reachable_v0: "reachable_v0 s \<Longrightarrow> run step_v0 cs s = Inr s' \<Longrightarrow> reachable_v0 s'"
proof (induction cs arbitrary: s)
  case Nil
  then show ?case by simp
next
  case (Cons c cs)
  then show ?case
    by (cases "step_v0 c s") (auto intro: reachable_v0_step)
qed

lemma reachable_sessionAfter: "reachable (sessionAfter cs)"
  by (cases "run step cs initialSession")
     (auto simp: sessionAfter_def intro: reachable_init run_reachable)

lemma reachable_v0_sessionAfter_v0: "reachable_v0 (sessionAfter_v0 cs)"
  by (cases "run step_v0 cs initialSession")
     (auto simp: sessionAfter_v0_def intro: reachable_v0_init run_reachable_v0)

text \<open>
  Taken one at a time and run to their end, the commands never lock a pair outside the grid,
  in either variant.
\<close>

lemma lock_writes_in_grid:
  assumes "gameState s = active" "\<not> isPaused s" "currentPuyo s = Some p"
    "\<not> isValidMove (grid s) (movedPuyo down p)"
  shows "(reachable s \<longrightarrow>
            writesInGrid p \<and> movePuyo down rnd s = placePuyo rnd s \<and>
            (\<exists>s'. placePuyo rnd s = Inr s')) \<and>
         (reachable_v0 s \<longrightarrow>
            writesInGrid p \<and> movePuyo_v0 down rnd s = placePuyo_v0 rnd s \<and>
            (\<exists>s'. placePuyo_v0 rnd s = Inr s'))"
proof -
  have m: "movePuyo down rnd s = placePuyo rnd s" "movePuyo_v0 down rnd s = placePuyo_v0 rnd s"
    using assms by (simp_all add: movePuyo_def movePuyo_v0_def Let_def)
  have "writesInGrid p \<and> (\<exists>s'. placePuyo rnd s = Inr s') \<and> (\<exists>s'. placePuyo_v0 rnd s = Inr s')"
    if inv: "sessionInv s"
    using lock_valid[OF inv assms(1,3,4)] inv_placePuyo[OF inv assms(1,3,4), of rnd]
      inv_placePuyo_v0[OF inv assms(1,3,4), of rnd] valid_writesInGrid[of "grid s" p]
    by blast
  then show ?thesis
    using m reachable_inv[of s] reachable_v0_inv[of s] by blast
qed

lemma lock_writes_in_grid_example:
  "gameState bottomSession = active \<and> \<not> isPaused bottomSession \<and>
   currentPuyo bottomSession = Some (generatePuyoPair (red, blue)\<lparr>y := 11\<rparr>) \<and>
   \<not> isValidMove (grid bottomSession) (movedPuyo down (generatePuyoPair (red, blue)\<lparr>y := 11\<rparr>)) \<and>
   reachable bottomSession \<and>
   writesInGrid (generatePuyoPair (red, blue)\<lparr>y := 11\<rparr>) \<and>
   (\<exists>s'. movePuyo down (red, red) bottomSession = Inr s') \<and>
   gameState bottomSession_v0 = active \<and> \<not> isPaused bottomSession_v0 \<and>
   currentPuyo bottomSession_v0 = Some (generatePuyoPair (red, blue)\<lparr>y := 11\<rparr>) \<and>
   \<not> isValidMove (grid bottomSession_v0)
       (movedPuyo down (generatePuyoPair (red, blue)\<lparr>y := 11\<rparr>)) \<and>
   reachable_v0 bottomSession_v0 \<and>
   (\<exists>s'. movePuyo_v0 down (red, red) bottomSession_v0 = Inr s')"
proof -
  have r: "reachable bottomSession"
    by (simp add: bottomSession_def reachable_sessionAfter)
  have e: "gameState bottomSession = active" "\<not> isPaused bottomSession"
    "currentPuyo bottomSession = Some (generatePuyoPair (red, blue)\<lparr>y := 11\<rparr>)"
    "\<not> isValidMove (grid bottomSession) (movedPuyo down (generatePuyoPair (red, blue)\<lparr>y := 11\<rparr>))"
    by (code_simp+)
  have r0: "reachable_v0 bottomSession_v0"
    by (simp add: bottomSession_v0_def reachable_v0_sessionAfter_v0)
  have e0: "gameState bottomSession_v0 = active" "\<not> isPaused bottomSession_v0"
    "currentPuyo bottomSession_v0 = Some (generatePuyoPair (red, blue)\<lparr>y := 11\<rparr>)"
    "\<not> isValidMove (grid bottomSession_v0)
        (movedPuyo down (generatePuyoPair (red, blue)\<lparr>y := 11\<rparr>))"
    by (code_simp+)
  show ?thesis
    using lock_writes_in_grid[OF e, of "(red, red)"] r e
      lock_writes_in_grid[OF e0, of "(red, red)"] r0 e0 by simp
qed

text \<open>
The session of the first wait has the pair, the queue and the flags the lock ends with.
\<close>

lemma firstWaitFrame_of_lock:
  assumes "wf_grid (grid s)" "firstWaitFrame rnd s = Some w"
  shows "\<exists>s'. placePuyo rnd s = Inr s' \<and> currentPuyo s' = currentPuyo w \<and>
           nextPuyos s' = nextPuyos w \<and> canHold s' = canHold w \<and>
           gameState w = gameState s \<and> isPaused w = isPaused s \<and> isAnimating w"
proof -
  obtain puyo where p: "currentPuyo s = Some puyo" "writesInGrid puyo"
    using assms(2) by (auto simp: firstWaitFrame_def split: option.splits if_splits)
  let ?g = "lockedGrid (grid s) puyo"
  let ?s1 = "s\<lparr>grid := ?g,
      currentPuyo := (case nextPuyos s of [] \<Rightarrow> None | p # _ \<Rightarrow> Some p),
      nextPuyos := drop 1 (nextPuyos s) @ [generatePuyoPair rnd], canHold := True\<rparr>"
  have wf: "wf_grid ?g" using assms(1) by (rule wf_lockedGrid)
  obtain gf sc cc where r: "applyGravityAndCheck ?g ?s1 =
      Inr ((gameOverCheck gf (?s1\<lparr>isAnimating := True, score := sc, chainCounter := cc,
             grid := gf\<rparr>))\<lparr>isAnimating := False\<rparr>)"
    using applyGravityAndCheck_spec[OF wf, of ?s1] by blast
  have "placePuyo rnd s = Inr ((gameOverCheck gf (?s1\<lparr>isAnimating := True, score := sc,
      chainCounter := cc, grid := gf\<rparr>))\<lparr>isAnimating := False\<rparr>)"
    using p r by (simp add: placePuyo_def Let_def)
  moreover have "currentPuyo w = currentPuyo ?s1 \<and> nextPuyos w = nextPuyos ?s1 \<and>
      canHold w = canHold ?s1 \<and> gameState w = gameState s \<and> isPaused w = isPaused s \<and>
      isAnimating w"
    using assms(2) p
    by (auto simp: firstWaitFrame_def Let_def split: prod.splits if_splits)
  ultimately show ?thesis
    by (simp add: gameOverCheck_def)
qed

section \<open>The claims\<close>

text \<open>
  C1. From every grid of the game's shape both resolvers, \<open>applyGravityAndCheck\<close> (which
  applies gravity first) and \<open>checkForMatches\<close>, return, and the score they add to the session
  is the sum over the clears of the resolution, numbered \<open>chainStep = 1, 2, ...\<close> from the first,
  of \<open>clearedCount * 10 * 2 ^ (chainStep - 1) + max 0 (clearedCount - 4) * 5\<close>, where
  \<open>clearedCount\<close> is the number of cells that clear removed: the occupied cells before it minus
  those after it, which is the number of cells in the regions of at least four cells that the
  scan found, taken together. The chain counter of the session ends as the number of clears
  (it is left alone when there was none), and the grid as the last grid of the sequence.
\<close>

theorem C1_resolver_score:
  assumes "wf_grid g"
  shows "(\<exists>gs s'. clearingRun (applyGravity g) gs \<and> applyGravityAndCheck g s = Inr s' \<and>
            grid s' = last gs \<and>
            score s' - score s =
              (\<Sum>k<length gs - 1.
                 let clearedCount = occupied (gs ! k) - occupied (gs ! Suc k); chainStep = k + 1
                 in int clearedCount * 10 * 2 ^ (chainStep - 1) + max 0 (int clearedCount - 4) * 5) \<and>
            chainCounter s' = (if length gs = 1 then chainCounter s else length gs - 1) \<and>
            (\<forall>k<length gs - 1.
               occupied (gs ! k) - occupied (gs ! Suc k) =
                 card (\<Union>c\<in>set (clearingCells (gs ! k)). set (regionAt (gs ! k) c)))) \<and>
         (\<exists>gs s'. clearingRun g gs \<and> checkForMatches rnd g s = Inr s' \<and>
            grid s' = last gs \<and>
            score s' - score s =
              (\<Sum>k<length gs - 1.
                 let clearedCount = occupied (gs ! k) - occupied (gs ! Suc k); chainStep = k + 1
                 in int clearedCount * 10 * 2 ^ (chainStep - 1) + max 0 (int clearedCount - 4) * 5) \<and>
            chainCounter s' = (if length gs = 1 then chainCounter s else length gs - 1) \<and>
            (\<forall>k<length gs - 1.
               occupied (gs ! k) - occupied (gs ! Suc k) =
                 card (\<Union>c\<in>set (clearingCells (gs ! k)). set (regionAt (gs ! k) c))))"
proof
  let ?l = "\<lparr>newGrid = applyGravity g, chainCount = 0, hasMatches = False\<rparr>"
  let ?s = "s\<lparr>isAnimating := True\<rparr>"
  have wf: "wf_grid (newGrid ?l)" using assms by (simp add: applyGravity_spec)
  obtain gs l' s' where r: "clearingRun (applyGravity g) gs" "chainLoop (?l, ?s) = Some (l', s')"
      "newGrid l' = last gs"
      "score s' = score ?s +
         (\<Sum>k<length gs - 1. chainPoints (occupied (gs ! k) - occupied (gs ! Suc k))
                               (chainCount ?l + k + 1))"
      "chainCounter s' = (if length gs = 1 then chainCounter ?s else chainCount ?l + (length gs - 1))"
      "\<forall>k<length gs - 1.
         occupied (gs ! k) - occupied (gs ! Suc k) =
           card (\<Union>c\<in>set (clearingCells (gs ! k)). set (regionAt (gs ! k) c))"
    using chainLoop_run[OF wf, of ?s] by auto
  let ?r = "(gameOverCheck (newGrid l') (s'\<lparr>grid := newGrid l'\<rparr>))\<lparr>isAnimating := False\<rparr>"
  have "applyGravityAndCheck g s = Inr ?r"
    by (simp add: applyGravityAndCheck_def r(2))
  moreover have "grid ?r = last gs" using r(3) by (simp add: resolver_fields)
  moreover have "score ?r - score s =
              (\<Sum>k<length gs - 1.
                 let clearedCount = occupied (gs ! k) - occupied (gs ! Suc k); chainStep = k + 1
                 in int clearedCount * 10 * 2 ^ (chainStep - 1) + max 0 (int clearedCount - 4) * 5)"
    using r(4) by (simp add: resolver_fields chainPoints_def Let_def)
  moreover have "chainCounter ?r = (if length gs = 1 then chainCounter s else length gs - 1)"
    using r(5) by (simp add: resolver_fields)
  ultimately show "\<exists>gs s'. clearingRun (applyGravity g) gs \<and> applyGravityAndCheck g s = Inr s' \<and>
            grid s' = last gs \<and>
            score s' - score s =
              (\<Sum>k<length gs - 1.
                 let clearedCount = occupied (gs ! k) - occupied (gs ! Suc k); chainStep = k + 1
                 in int clearedCount * 10 * 2 ^ (chainStep - 1) + max 0 (int clearedCount - 4) * 5) \<and>
            chainCounter s' = (if length gs = 1 then chainCounter s else length gs - 1) \<and>
            (\<forall>k<length gs - 1.
               occupied (gs ! k) - occupied (gs ! Suc k) =
                 card (\<Union>c\<in>set (clearingCells (gs ! k)). set (regionAt (gs ! k) c)))"
    using r(1,6) by blast
next
  let ?l = "\<lparr>newGrid = g, chainCount = 0, hasMatches = False\<rparr>"
  have wf: "wf_grid (newGrid ?l)" using assms by simp
  obtain gs l' s' where r: "clearingRun g gs" "chainLoop (?l, s) = Some (l', s')"
      "newGrid l' = last gs"
      "score s' = score s +
         (\<Sum>k<length gs - 1. chainPoints (occupied (gs ! k) - occupied (gs ! Suc k))
                               (chainCount ?l + k + 1))"
      "chainCounter s' = (if length gs = 1 then chainCounter s else chainCount ?l + (length gs - 1))"
      "\<forall>k<length gs - 1.
         occupied (gs ! k) - occupied (gs ! Suc k) =
           card (\<Union>c\<in>set (clearingCells (gs ! k)). set (regionAt (gs ! k) c))"
    using chainLoop_run[OF wf, of s] by auto
  let ?r = "gameOverCheck (newGrid l')
              (s'\<lparr>grid := newGrid l', currentPuyo := nextPuyo s,
                  nextPuyo := Some (generatePuyoPair rnd)\<rparr>)"
  have "checkForMatches rnd g s = Inr ?r"
    by (simp add: checkForMatches_def r(2))
  moreover have "grid ?r = last gs" using r(3) by (simp add: resolver_fields)
  moreover have "score ?r - score s =
              (\<Sum>k<length gs - 1.
                 let clearedCount = occupied (gs ! k) - occupied (gs ! Suc k); chainStep = k + 1
                 in int clearedCount * 10 * 2 ^ (chainStep - 1) + max 0 (int clearedCount - 4) * 5)"
    using r(4) by (simp add: resolver_fields chainPoints_def Let_def)
  moreover have "chainCounter ?r = (if length gs = 1 then chainCounter s else length gs - 1)"
    using r(5) by (simp add: resolver_fields)
  ultimately show "\<exists>gs s'. clearingRun g gs \<and> checkForMatches rnd g s = Inr s' \<and>
            grid s' = last gs \<and>
            score s' - score s =
              (\<Sum>k<length gs - 1.
                 let clearedCount = occupied (gs ! k) - occupied (gs ! Suc k); chainStep = k + 1
                 in int clearedCount * 10 * 2 ^ (chainStep - 1) + max 0 (int clearedCount - 4) * 5) \<and>
            chainCounter s' = (if length gs = 1 then chainCounter s else length gs - 1) \<and>
            (\<forall>k<length gs - 1.
               occupied (gs ! k) - occupied (gs ! Suc k) =
                 card (\<Union>c\<in>set (clearingCells (gs ! k)). set (regionAt (gs ! k) c)))"
    using r(1,6) by blast
qed

theorem C1_resolver_score_witness:
  "wf_grid chainGrid \<and> wf_grid fiveGrid \<and>
   (\<exists>s'. applyGravityAndCheck fiveGrid activeSession = Inr s' \<and>
      score s' - score activeSession = 55 \<and> chainCounter s' = 1) \<and>
   (\<exists>s'. checkForMatches (red, red) fiveGrid activeSession = Inr s' \<and>
      score s' - score activeSession = 55 \<and> chainCounter s' = 1) \<and>
   (\<exists>s'. applyGravityAndCheck chainGrid activeSession = Inr s' \<and>
      score s' - score activeSession = 40 + 80 \<and> chainCounter s' = 2) \<and>
   (\<exists>s'. checkForMatches (red, red) chainGrid activeSession = Inr s' \<and>
      score s' - score activeSession = 40 + 80 \<and> chainCounter s' = 2)"
proof -
  note c = chain_example
  note f = five_example
  have wfc: "wf_grid chainGrid" and wff: "wf_grid fiveGrid" using c f by simp_all
  have rc: "gs = [chainGrid, fourBlueGrid, createEmptyGrid]" if "clearingRun chainGrid gs" for gs
    using that c clearingRun_unique by blast
  have rf: "gs = [fiveGrid, createEmptyGrid]" if "clearingRun fiveGrid gs" for gs
    using that f clearingRun_unique by blast
  have sc: "(\<Sum>k<2::nat. h k) = h 0 + h 1" for h :: "nat \<Rightarrow> int"
    by (simp add: numeral_2_eq_2)
  show ?thesis
    using C1_resolver_score[OF wfc, of activeSession "(red, red)"]
      C1_resolver_score[OF wff, of activeSession "(red, red)"]
    by (auto simp: c f sc Let_def dest!: rc rf)
qed

text \<open>
  C2, as stated, fails: the session just started is active with no animation running, and its
  current pair, as generated (column 2, row 0, rotation 0), has its second cell at row -1,
  outside the grid, so the placement is not valid.
\<close>

theorem C2_spawned_piece_not_in_grid:
  "reachable spawnSession \<and> gameState spawnSession = active \<and> \<not> isAnimating spawnSession \<and>
   currentPuyo spawnSession = Some (generatePuyoPair (red, blue)) \<and>
   getSecondPuyoPosition (x (generatePuyoPair (red, blue))) (y (generatePuyoPair (red, blue)))
     (rotation (generatePuyoPair (red, blue))) = (2, -1) \<and>
   \<not> inGrid 2 (-1) \<and>
   \<not> isValidMove (grid spawnSession) (generatePuyoPair (red, blue))"
proof -
  have "gameState spawnSession = active" "\<not> isAnimating spawnSession"
    "currentPuyo spawnSession = Some (generatePuyoPair (red, blue))"
    by (code_simp+)
  moreover have "atSpawn (generatePuyoPair (red, blue))" by (simp add: generated_ok)
  moreover have "\<not> inGrid 2 (-1)" by (simp add: inGrid_def)
  ultimately show ?thesis
    using atSpawn_not_valid[of "generatePuyoPair (red, blue)" "grid spawnSession"]
    by (simp add: spawnSession_def reachable_sessionAfter)
qed

text \<open>
  C2, amended. In every session reached from the initial one by commands, when the phase is
  active and the animation flag is false, there is no current pair, or the anchor cell of the
  current pair is in the grid and empty there, and its second cell is in the grid and empty
  there unless the pair is in the pose of a generated pair (column 2, row 0, rotation 0), whose
  second cell is at row -1, above the anchor. A pair in that pose is never a valid placement,
  and its anchor cell is in the grid and empty. Generated pairs are in that pose, and so is the
  pair a hold makes current, in a session that is again reached, active and not animating.
\<close>

theorem C2_active_piece_cells:
  assumes "reachable s" "gameState s = active" "\<not> isAnimating s"
  shows "(case currentPuyo s of None \<Rightarrow> True
          | Some p \<Rightarrow>
              inGrid (x p) (y p) \<and> cellAt (grid s) (x p, y p) = None \<and>
              (case getSecondPuyoPosition (x p) (y p) (rotation p) of (x2, y2) \<Rightarrow>
                 inGrid x2 y2 \<and> cellAt (grid s) (x2, y2) = None \<or>
                 atSpawn p \<and> (x2, y2) = (2, -1))) \<and>
         (\<forall>p. atSpawn p \<longrightarrow>
            \<not> isValidMove (grid s) p \<and>
            getSecondPuyoPosition (x p) (y p) (rotation p) = (2, -1) \<and>
            inGrid (x p) (y p) \<and> cellAt (grid s) (x p, y p) = None) \<and>
         atSpawn (generatePuyoPair rnd) \<and>
         (\<forall>q. currentPuyo s \<noteq> None \<and> canHold s \<and> \<not> isPaused s \<and>
              currentPuyo (holdPuyo rnd s) = Some q \<longrightarrow>
              atSpawn q \<and> reachable (holdPuyo rnd s) \<and> gameState (holdPuyo rnd s) = active \<and>
              \<not> isAnimating (holdPuyo rnd s) \<and> cellAt (grid (holdPuyo rnd s)) (x q, y q) = None)"
proof -
  have inv: "sessionInv s" using assms(1) by (rule reachable_inv)
  have wf: "wf_grid (grid s)" and r0: "rowEmpty (grid s) 0"
    using inv assms(2) by (simp_all add: sessionInv_def)
  have c0: "grid s ! 0 ! 2 = None"
    using wf r0 by (auto intro!: rowEmpty_nth simp: GRID_ROWS_def GRID_COLS_def)
  have sp: "inGrid (x p) (y p) \<and> cellAt (grid s) (x p, y p) = None" if "atSpawn p" for p
    using that c0 by (simp add: atSpawn_def inGrid_def cellAt_def GRID_ROWS_def GRID_COLS_def)
  have a: "case currentPuyo s of None \<Rightarrow> True
          | Some p \<Rightarrow>
              inGrid (x p) (y p) \<and> cellAt (grid s) (x p, y p) = None \<and>
              (case getSecondPuyoPosition (x p) (y p) (rotation p) of (x2, y2) \<Rightarrow>
                 inGrid x2 y2 \<and> cellAt (grid s) (x2, y2) = None \<or>
                 atSpawn p \<and> (x2, y2) = (2, -1))"
  proof (cases "currentPuyo s")
    case None
    then show ?thesis by simp
  next
    case (Some p)
    have "atSpawn p \<or> isValidMove (grid s) p"
      using inv assms(2) Some by (simp add: sessionInv_def)
    then show ?thesis
    proof
      assume "atSpawn p"
      then show ?thesis using sp[of p] atSpawn_not_valid[of p "grid s"] by (simp add: Some)
    next
      assume "isValidMove (grid s) p"
      then show ?thesis
        by (auto simp: Some isValidMove_def inGrid_def cellAt_def split: prod.splits)
    qed
  qed
  have nx: "list_all (\<lambda>p. atSpawn p \<and> coloured p) (nextPuyos s)"
    using inv by (simp add: sessionInv_def)
  have d: "atSpawn q \<and> reachable (holdPuyo rnd s) \<and> gameState (holdPuyo rnd s) = active \<and>
              \<not> isAnimating (holdPuyo rnd s) \<and> cellAt (grid (holdPuyo rnd s)) (x q, y q) = None"
    if h: "currentPuyo s \<noteq> None \<and> canHold s \<and> \<not> isPaused s \<and>
              currentPuyo (holdPuyo rnd s) = Some q" for q
  proof -
    have q: "atSpawn q"
      using h assms(2) head_ok[OF nx]
      by (auto simp: holdPuyo_def atSpawn_def split: option.splits)
    have "step (Hold rnd) s = Inr (holdPuyo rnd s)" by simp
    then have re: "reachable (holdPuyo rnd s)" using assms(1) by (rule reachable_step[rotated])
    have fr: "gameState (holdPuyo rnd s) = active" "\<not> isAnimating (holdPuyo rnd s)"
      "grid (holdPuyo rnd s) = grid s"
      using assms(2,3) by (auto simp: holdPuyo_def split: option.splits)
    show ?thesis using q re fr sp[OF q] by simp
  qed
  show ?thesis
    using a d sp atSpawn_not_valid generated_ok[of rnd] by blast
qed

theorem C2_active_piece_cells_witness:
  "reachable spawnSession \<and> gameState spawnSession = active \<and> \<not> isAnimating spawnSession \<and>
   currentPuyo spawnSession = Some (generatePuyoPair (red, blue)) \<and>
   atSpawn (generatePuyoPair (red, blue)) \<and>
   inGrid 2 0 \<and> cellAt (grid spawnSession) (2, 0) = None \<and>
   reachable fallenSession \<and> gameState fallenSession = active \<and> \<not> isAnimating fallenSession \<and>
   currentPuyo fallenSession = Some (generatePuyoPair (red, blue)\<lparr>y := 3\<rparr>) \<and>
   \<not> atSpawn (generatePuyoPair (red, blue)\<lparr>y := 3\<rparr>) \<and>
   inGrid 2 3 \<and> cellAt (grid fallenSession) (2, 3) = None \<and>
   inGrid 2 2 \<and> cellAt (grid fallenSession) (2, 2) = None"
proof -
  have r: "reachable fallenSession" "reachable spawnSession"
    by (simp_all add: fallenSession_def spawnSession_def reachable_sessionAfter)
  have e: "gameState fallenSession = active" "\<not> isAnimating fallenSession"
    "currentPuyo fallenSession = Some (generatePuyoPair (red, blue)\<lparr>y := 3\<rparr>)"
    by (code_simp+)
  have e': "gameState spawnSession = active" "\<not> isAnimating spawnSession"
    "currentPuyo spawnSession = Some (generatePuyoPair (red, blue))"
    by (code_simp+)
  have n: "\<not> atSpawn (generatePuyoPair (red, blue)\<lparr>y := 3\<rparr>)"
    "atSpawn (generatePuyoPair (red, blue))"
    "x (generatePuyoPair (red, blue)) = 2" "y (generatePuyoPair (red, blue)) = 0"
    "rotation (generatePuyoPair (red, blue)) = 0"
    by (simp_all add: atSpawn_def generatePuyoPair_def)
  show ?thesis
    using C2_active_piece_cells[OF r(1) e(1,2), of "(red, red)"]
      C2_active_piece_cells[OF r(2) e'(1,2), of "(red, red)"] r e e' n
    by (simp add: getSecondPuyoPosition_def)
qed

text \<open>
  C3. \<^verbatim>\<open>page.tsx\<close> applies gravity before the first scan (\<open>applyGravityAndCheck_scans_settled\<close>)
  and both variants apply it after every clear (\<open>checkAndUpdateChain_match\<close>). \<open>checkForMatches\<close> of
  \<^verbatim>\<open>part_000\<close> starts the loop on the grid as locked: after \<open>floatingCommands\<close> the second
  pair lies across columns 2 and 3 at row 9, \<open>yellow\<close> stays at row 9 of column 3 over two empty
  cells, and the grid the next scan will read is not settled; called on \<open>floatingGrid\<close> it
  returns that grid unchanged. On the same commands \<^verbatim>\<open>page.tsx\<close> drops \<open>yellow\<close> to row 11
  (\<open>page_settles_same_input\<close>).
\<close>

theorem C3_checkForMatches_scans_unsettled:
  "(case run step_v0 floatingCommands initialSession of
      Inl e \<Rightarrow> False
    | Inr s \<Rightarrow> gameState s = active \<and> grid s ! 9 ! 3 = Some yellow \<and> grid s ! 10 ! 3 = None \<and>
               grid s ! 11 ! 3 = None \<and> \<not> settled (grid s)) \<and>
   (case checkForMatches (blue, blue) floatingGrid activeSession of
      Inl e \<Rightarrow> False
    | Inr s \<Rightarrow> grid s = floatingGrid \<and> \<not> settled floatingGrid)"
  by code_simp

lemma page_settles_same_input:
  "case run step floatingCommands initialSession of
     Inl e \<Rightarrow> False
   | Inr s \<Rightarrow> gameState s = active \<and> grid s ! 11 ! 3 = Some yellow \<and> grid s ! 9 ! 3 = None \<and>
              settled (grid s)"
  by code_simp

theorem C3_checkForMatches_scans_unsettled_witness:
  "run step_v0 floatingCommands initialSession \<noteq> Inl OutOfBounds \<and>
   checkForMatches (blue, blue) floatingGrid activeSession \<noteq> Inl NoReturn"
  using C3_checkForMatches_scans_unsettled by (auto split: sum.splits)

text \<open>
  C4. In \<^verbatim>\<open>part_000\<close>, and in \<^verbatim>\<open>page.tsx\<close> as long as every command runs to its end
  before the next is taken, a rejected move down finds the pair on two cells of the grid
  (\<open>lock_writes_in_grid\<close>). But \<^verbatim>\<open>page.tsx\<close> waits inside its resolver with the next pair
  already current, and its key handler does not test \<open>isAnimating\<close>; only the fall timer
  does. After \<open>raceCommands\<close> the next move down locks the sixth pair, four \<open>red\<close> cells
  clear and \<open>blue\<close> is left at row 0 until gravity runs. A move down taken during that wait
  is rejected with the next pair still where it was generated, and the lock stores the
  second colour at row -1: \<open>OutOfBounds\<close>.
\<close>

theorem C4_lock_during_wait_out_of_bounds:
  "case run step raceCommands initialSession of
     Inl e \<Rightarrow> False
   | Inr s \<Rightarrow>
       (case firstWaitFrame (green, yellow) s of
          None \<Rightarrow> False
        | Some w \<Rightarrow>
            gameState w = active \<and> \<not> isPaused w \<and> isAnimating w \<and>
            currentPuyo w = Some (generatePuyoPair (green, yellow)) \<and>
            grid w ! 0 ! 2 = Some blue \<and> grid w ! 1 ! 2 = None \<and>
            \<not> isValidMove (grid w) (movedPuyo down (generatePuyoPair (green, yellow))) \<and>
            \<not> writesInGrid (generatePuyoPair (green, yellow)) \<and>
            movePuyo down (red, red) w = Inl OutOfBounds)"
  by code_simp

theorem C4_lock_during_wait_out_of_bounds_witness:
  "run step raceCommands initialSession \<noteq> Inl OutOfBounds \<and>
   run step raceCommands initialSession \<noteq> Inl NoReturn"
  using C4_lock_during_wait_out_of_bounds by (auto split: sum.splits)

text \<open>
  C5. On every grid of the game's shape the chain loop returns. A step that clears removes at
  least four occupied cells; the loop ends with \<open>hasMatches\<close> false after at most
  \<open>GRID_ROWS * GRID_COLS\<close> clearing steps (four times their number is at most the number of
  occupied cells), and both resolvers return a session.
\<close>

theorem C5_chain_loop_terminates:
  assumes "wf_grid (newGrid l)"
  shows "(hasMatches (fst (checkAndUpdateChain (l, s))) \<longrightarrow>
            occupied (newGrid (fst (checkAndUpdateChain (l, s)))) + 4 \<le> occupied (newGrid l)) \<and>
         (\<exists>l' s'. chainLoop (l, s) = Some (l', s') \<and> \<not> hasMatches l' \<and>
            occupied (newGrid l') + 4 * (chainCount l' - chainCount l) \<le> occupied (newGrid l) \<and>
            chainCount l' - chainCount l \<le> GRID_ROWS * GRID_COLS) \<and>
         (\<exists>s'. applyGravityAndCheck (newGrid l) s = Inr s') \<and>
         (\<exists>s'. checkForMatches rnd (newGrid l) s = Inr s')"
proof -
  have a: "hasMatches (fst (checkAndUpdateChain (l, s))) \<longrightarrow>
            occupied (newGrid (fst (checkAndUpdateChain (l, s)))) + 4 \<le> occupied (newGrid l)"
  proof
    assume "hasMatches (fst (checkAndUpdateChain (l, s)))"
    then have "fst (findMatches (newGrid l))" using assms by (simp add: hasMatches_step)
    from checkAndUpdateChain_match[OF assms this, of s]
    show "occupied (newGrid (fst (checkAndUpdateChain (l, s)))) + 4 \<le> occupied (newGrid l)"
      by auto
  qed
  obtain l' s' where r: "chainLoop (l, s) = Some (l', s')" "\<not> hasMatches l'"
      "occupied (newGrid l') + 4 * (chainCount l' - chainCount l) \<le> occupied (newGrid l)"
    using chainLoop_spec[OF assms, of s] by blast
  have "chainCount l' - chainCount l \<le> GRID_ROWS * GRID_COLS"
    using r(3) occupied_le[OF assms] by simp
  then have b: "\<exists>l' s'. chainLoop (l, s) = Some (l', s') \<and> \<not> hasMatches l' \<and>
            occupied (newGrid l') + 4 * (chainCount l' - chainCount l) \<le> occupied (newGrid l) \<and>
            chainCount l' - chainCount l \<le> GRID_ROWS * GRID_COLS"
    using r by blast
  have c: "\<exists>s'. applyGravityAndCheck (newGrid l) s = Inr s'"
    using applyGravityAndCheck_spec[OF assms, of s] by blast
  have d: "\<exists>s'. checkForMatches rnd (newGrid l) s = Inr s'"
    using checkForMatches_spec[OF assms, of rnd s] by blast
  show ?thesis using a b c d by blast
qed

theorem C5_chain_loop_terminates_witness:
  "wf_grid (newGrid fiveLocals) \<and>
   hasMatches (fst (checkAndUpdateChain (fiveLocals, activeSession))) \<and>
   occupied (newGrid (fst (checkAndUpdateChain (fiveLocals, activeSession)))) + 4 \<le> occupied (newGrid fiveLocals) \<and>
   (\<exists>l' s'. chainLoop (fiveLocals, activeSession) = Some (l', s') \<and> \<not> hasMatches l' \<and>
      chainCount l' - chainCount fiveLocals \<le> GRID_ROWS * GRID_COLS)"
proof -
  have wf: "wf_grid (newGrid fiveLocals)" by code_simp
  have h: "hasMatches (fst (checkAndUpdateChain (fiveLocals, activeSession)))" by code_simp
  show ?thesis
    using C5_chain_loop_terminates[OF wf, of activeSession "(red, red)"] wf h by blast
qed



text \<open>
  C7. For every grid and every pair whose rotation is 0, 1, 2 or 3, \<open>isValidMove\<close> holds
  exactly when the anchor cell and the cell at the specification's offset for that rotation
  are both in the grid and both empty there.
\<close>

theorem C7_isValidMove_iff:
  assumes "secondCellOffset (rotation puyo) = Some (dx, dy)"
  shows "isValidMove g puyo \<longleftrightarrow>
           inGrid (x puyo) (y puyo) \<and> inGrid (x puyo + dx) (y puyo + dy) \<and>
           g ! nat (y puyo) ! nat (x puyo) = None \<and>
           g ! nat (y puyo + dy) ! nat (x puyo + dx) = None"
  using assms
  by (auto simp: secondCellOffset_def isValidMove_def getSecondPuyoPosition_def inGrid_def
      split: if_splits)

theorem C7_isValidMove_iff_witness:
  "secondCellOffset (rotation (generatePuyoPair (red, blue)\<lparr>y := 1\<rparr>)) = Some (0, -1) \<and>
   isValidMove createEmptyGrid (generatePuyoPair (red, blue)\<lparr>y := 1\<rparr>) \<and>
   \<not> isValidMove createEmptyGrid (generatePuyoPair (red, blue))"
proof -
  have o: "secondCellOffset (rotation (generatePuyoPair (red, blue)\<lparr>y := 1\<rparr>)) = Some (0, -1)"
    by (simp add: secondCellOffset_def generatePuyoPair_def)
  have o': "secondCellOffset (rotation (generatePuyoPair (red, blue))) = Some (0, -1)"
    by (simp add: secondCellOffset_def generatePuyoPair_def)
  show ?thesis
    using C7_isValidMove_iff[OF o, of createEmptyGrid] C7_isValidMove_iff[OF o', of createEmptyGrid] o
    by (simp add: generatePuyoPair_def inGrid_def createEmptyGrid_def GRID_ROWS_def GRID_COLS_def)
qed

text \<open>
  C8. For every grid of the game's shape, \<open>applyGravity\<close> acts on each column independently:
  the column of the output is a function of the same column of the input alone; read from top
  to bottom, the non-empty colours of the output column are those of the input column in the
  same order; and the output column is empty cells followed by exactly these colours, so the
  non-empty cells occupy the lowest rows.
\<close>

theorem C8_applyGravity_columns:
  assumes "wf_grid g" "cx < GRID_COLS"
  shows "nonEmpty (column (applyGravity g) cx) = nonEmpty (column g cx) \<and>
         column (applyGravity g) cx =
           replicate (GRID_ROWS - length (nonEmpty (column g cx))) None @ nonEmpty (column g cx) \<and>
         (\<forall>h. wf_grid h \<and> column h cx = column g cx \<longrightarrow>
              column (applyGravity h) cx = column (applyGravity g) cx)"
proof -
  have len: "length (column g cx) = GRID_ROWS"
    using assms(1) by (simp add: length_column wf_grid_def)
  have c: "column (applyGravity g) cx = compact (column g cx)"
    using assms by (rule applyGravity_spec)
  have "column (applyGravity h) cx = column (applyGravity g) cx"
    if "wf_grid h \<and> column h cx = column g cx" for h
    using that c applyGravity_spec(3)[of h cx] assms(2) by simp
  then show ?thesis
    using c len by (simp add: nonEmpty_compact) (simp add: compact_def)
qed

theorem C8_applyGravity_columns_witness:
  "wf_grid floatingGrid \<and> (2::nat) < GRID_COLS \<and>
   nonEmpty (column floatingGrid 2) = [Some red, Some blue] \<and>
   column (applyGravity floatingGrid) 2 = replicate 10 None @ [Some red, Some blue]"
proof -
  have cols: "(2::nat) < GRID_COLS" by (simp add: GRID_COLS_def)
  have ne: "nonEmpty (column floatingGrid 2) = [Some red, Some blue]"
    by code_simp
  show ?thesis
    using C8_applyGravity_columns[OF wf_floatingGrid cols] wf_floatingGrid cols ne
    by (simp add: GRID_ROWS_def)
qed

text \<open>
C9. \<open>applyGravity\<close> is idempotent on every grid of the game's shape.
\<close>

theorem C9_applyGravity_idempotent:
  assumes "wf_grid g"
  shows "applyGravity (applyGravity g) = applyGravity g"
  using assms by (rule applyGravity_idem)

theorem C9_applyGravity_idempotent_witness:
  "wf_grid floatingGrid \<and> applyGravity floatingGrid \<noteq> floatingGrid \<and>
   applyGravity (applyGravity floatingGrid) = applyGravity floatingGrid"
proof -
  have "column (applyGravity floatingGrid) 2 \<noteq> column floatingGrid 2"
    by code_simp
  then have "applyGravity floatingGrid \<noteq> floatingGrid"
    by auto
  then show ?thesis
    using C9_applyGravity_idempotent[OF wf_floatingGrid] wf_floatingGrid by simp
qed

text \<open>
  C10. The pause toggle is accepted in every phase, in both variants; it negates \<open>isPaused\<close>
  and leaves every other state variable as it was.
\<close>

theorem C10_togglePause_frame:
  "step TogglePause s = Inr (togglePause s) \<and> step_v0 TogglePause s = Inr (togglePause s) \<and>
   isPaused (togglePause s) = (\<not> isPaused s) \<and>
   togglePause s = s\<lparr>isPaused := \<not> isPaused s\<rparr> \<and>
   grid (togglePause s) = grid s \<and> gameState (togglePause s) = gameState s \<and>
   score (togglePause s) = score s \<and> currentPuyo (togglePause s) = currentPuyo s \<and>
   nextPuyos (togglePause s) = nextPuyos s \<and> nextPuyo (togglePause s) = nextPuyo s \<and>
   chainCounter (togglePause s) = chainCounter s \<and> fallSpeed (togglePause s) = fallSpeed s \<and>
   heldPuyo (togglePause s) = heldPuyo s \<and> canHold (togglePause s) = canHold s \<and>
   isAnimating (togglePause s) = isAnimating s"
  by (simp add: togglePause_def)

theorem C10_togglePause_frame_witness:
  "isPaused (togglePause initialSession) \<and> gameState (togglePause initialSession) = title \<and>
   step TogglePause (initialSession\<lparr>gameState := over\<rparr>)
     = Inr (initialSession\<lparr>gameState := over, isPaused := True\<rparr>)"
  using C10_togglePause_frame[of initialSession]
    C10_togglePause_frame[of "initialSession\<lparr>gameState := over\<rparr>"]
  by (simp add: initialSession_def)

end
